theory Spec2Isabelle
  imports Complex_Main
begin

section \<open>Python values\<close>

text \<open>
  A Python \<^verbatim>\<open>str\<close> is a sequence of Unicode code points, so it is modelled as a list of
  natural numbers (the smart quotes that the extractor replaces are U+201C and U+201D, beyond
  any 8-bit character type).  \<open>py\<close> embeds an ASCII literal.
\<close>

type_synonym pystr = "nat list"

definition py :: "string \<Rightarrow> pystr" where
  "py s = map of_char s"

abbreviation QUOTE :: nat where "QUOTE \<equiv> 34"
abbreviation COMMA :: nat where "COMMA \<equiv> 44"
abbreviation COLON :: nat where "COLON \<equiv> 58"
abbreviation LBRACK :: nat where "LBRACK \<equiv> 91"
abbreviation BACKSLASH :: nat where "BACKSLASH \<equiv> 92"
abbreviation RBRACK :: nat where "RBRACK \<equiv> 93"
abbreviation BACKTICK :: nat where "BACKTICK \<equiv> 96"
abbreviation LBRACE :: nat where "LBRACE \<equiv> 123"
abbreviation RBRACE :: nat where "RBRACE \<equiv> 125"
abbreviation SPACE :: nat where "SPACE \<equiv> 32"
abbreviation NEWLINE :: nat where "NEWLINE \<equiv> 10"

text \<open>
  Python floats are idealised: a finite float is a real number and float arithmetic is exact;
  the three non-finite values that \<^verbatim>\<open>json.loads\<close> accepts are kept apart.
\<close>

datatype pyfloat = Finite real | PosInf | NegInf | NaN

text \<open>
  The values that flow through the pipeline are those of JSON documents: \<^verbatim>\<open>None\<close>,
  \<^verbatim>\<open>bool\<close>, \<^verbatim>\<open>int\<close>, \<^verbatim>\<open>float\<close>, \<^verbatim>\<open>str\<close>, \<^verbatim>\<open>list\<close> and \<^verbatim>\<open>dict\<close> with string keys.
  A dict keeps its insertion order and has no duplicate key, so it is an association list
  that is only ever extended through \<open>dict_set\<close>.
\<close>

datatype pyval =
    PNone
  | PBool bool
  | PInt int
  | PFloat pyfloat
  | PStr pystr
  | PList "pyval list"
  | PDict "(pystr \<times> pyval) list"

type_synonym pydict = "(pystr \<times> pyval) list"

datatype error = ValueError | TypeError | AttributeError

fun dict_get :: "pydict \<Rightarrow> pystr \<Rightarrow> pyval option" where
  "dict_get [] k = None"
| "dict_get ((k', v) # kvs) k = (if k' = k then Some v else dict_get kvs k)"

text \<open>\<^verbatim>\<open>d[k] = v\<close>: an existing key keeps its position, a new key goes last.\<close>

fun dict_set :: "pydict \<Rightarrow> pystr \<Rightarrow> pyval \<Rightarrow> pydict" where
  "dict_set [] k v = [(k, v)]"
| "dict_set ((k', v') # kvs) k v =
     (if k' = k then (k', v) # kvs else (k', v') # dict_set kvs k v)"

text \<open>\<^verbatim>\<open>d.update(e)\<close>, also \<^verbatim>\<open>{**d, **e}\<close>.\<close>

definition dict_update :: "pydict \<Rightarrow> pydict \<Rightarrow> pydict" where
  "dict_update d e = foldl (\<lambda>acc (k, v). dict_set acc k v) d e"

text \<open>\<^verbatim>\<open>d.get(k)\<close> (absent gives \<^verbatim>\<open>None\<close>) and \<^verbatim>\<open>d.get(k, default)\<close>.\<close>

definition get :: "pydict \<Rightarrow> pystr \<Rightarrow> pyval" where
  "get d k = (case dict_get d k of None \<Rightarrow> PNone | Some v \<Rightarrow> v)"

definition get_default :: "pydict \<Rightarrow> pystr \<Rightarrow> pyval \<Rightarrow> pyval" where
  "get_default d k dflt = (case dict_get d k of None \<Rightarrow> dflt | Some v \<Rightarrow> v)"

text \<open>Truth value testing, as used by \<^verbatim>\<open>if x\<close> and \<^verbatim>\<open>x or y\<close>.\<close>

fun truthy :: "pyval \<Rightarrow> bool" where
  "truthy PNone = False"
| "truthy (PBool b) = b"
| "truthy (PInt i) = (i \<noteq> 0)"
| "truthy (PFloat (Finite r)) = (r \<noteq> 0)"
| "truthy (PFloat _) = True"
| "truthy (PStr s) = (s \<noteq> [])"
| "truthy (PList xs) = (xs \<noteq> [])"
| "truthy (PDict kvs) = (kvs \<noteq> [])"

definition py_or :: "pyval \<Rightarrow> pyval \<Rightarrow> pyval" where
  "py_or a b = (if truthy a then a else b)"

section \<open>String methods and regular expressions used by the sources\<close>

text \<open>\<^verbatim>\<open>str.isspace\<close> of one code point; the class \<^verbatim>\<open>\s\<close> of \<^verbatim>\<open>re\<close> on \<^verbatim>\<open>str\<close> patterns is the same set.\<close>

definition isspace :: "nat \<Rightarrow> bool" where
  "isspace c \<longleftrightarrow>
     (9 \<le> c \<and> c \<le> 13) \<or> (28 \<le> c \<and> c \<le> 32) \<or> c = 133 \<or> c = 160 \<or> c = 5760 \<or>
     (8192 \<le> c \<and> c \<le> 8202) \<or> c = 8232 \<or> c = 8233 \<or> c = 8239 \<or> c = 8287 \<or> c = 12288"

definition lstrip :: "pystr \<Rightarrow> pystr" where
  "lstrip s = dropWhile isspace s"

definition rstrip :: "pystr \<Rightarrow> pystr" where
  "rstrip s = rev (dropWhile isspace (rev s))"

definition strip :: "pystr \<Rightarrow> pystr" where
  "strip s = rstrip (lstrip s)"

definition startswith :: "pystr \<Rightarrow> pystr \<Rightarrow> bool" where
  "startswith s p \<longleftrightarrow> take (length p) s = p"

definition endswith :: "pystr \<Rightarrow> pystr \<Rightarrow> bool" where
  "endswith s p \<longleftrightarrow> length p \<le> length s \<and> drop (length s - length p) s = p"

text \<open>\<^verbatim>\<open>sep.join(parts)\<close>.\<close>

fun join :: "pystr \<Rightarrow> pystr list \<Rightarrow> pystr" where
  "join sep [] = []"
| "join sep [x] = x"
| "join sep (x # y # ys) = x @ sep @ join sep (y # ys)"

text \<open>
  \<^verbatim>\<open>str.splitlines()\<close>: the line boundaries are LF, CR, CR LF, VT, FF, FS, GS, RS, NEL, LS and
  PS; a final line boundary opens no further line.
\<close>

definition is_linebreak :: "nat \<Rightarrow> bool" where
  "is_linebreak c \<longleftrightarrow>
     (10 \<le> c \<and> c \<le> 13) \<or> (28 \<le> c \<and> c \<le> 30) \<or> c = 133 \<or> c = 8232 \<or> c = 8233"

fun splitlines_from :: "pystr \<Rightarrow> pystr \<Rightarrow> pystr list" where
  "splitlines_from cur [] = (if cur = [] then [] else [cur])"
| "splitlines_from cur [c] =
     (if is_linebreak c then [cur] else [cur @ [c]])"
| "splitlines_from cur (c # d # cs) =
     (if c = 13 \<and> d = 10 then cur # splitlines_from [] cs
      else if is_linebreak c then cur # splitlines_from [] (d # cs)
      else splitlines_from (cur @ [c]) (d # cs))"

definition splitlines :: "pystr \<Rightarrow> pystr list" where
  "splitlines s = splitlines_from [] s"

text \<open>
  \<^verbatim>\<open>re.sub(r'[...]+', ' ', s)\<close> for a character class \<open>P\<close>: every maximal run of characters
  of the class becomes one space.  The flag says that the previous character was in a run.
\<close>

fun sub_runs :: "(nat \<Rightarrow> bool) \<Rightarrow> bool \<Rightarrow> pystr \<Rightarrow> pystr" where
  "sub_runs P in_run [] = []"
| "sub_runs P in_run (c # cs) =
     (if P c then (if in_run then sub_runs P True cs else SPACE # sub_runs P True cs)
      else c # sub_runs P False cs)"

text \<open>\<^verbatim>\<open>s.replace(a, b)\<close> for single characters.\<close>

definition replace_char :: "nat \<Rightarrow> nat \<Rightarrow> pystr \<Rightarrow> pystr" where
  "replace_char a b s = map (\<lambda>c. if c = a then b else c) s"

text \<open>\<^verbatim>\<open>s.count(c)\<close> for a single character.\<close>

definition count_char :: "pystr \<Rightarrow> nat \<Rightarrow> nat" where
  "count_char s c = length (filter (\<lambda>x. x = c) s)"

section \<open>The standard decoder \<^verbatim>\<open>json.loads\<close>\<close>

text \<open>
  \<^verbatim>\<open>json.loads\<close> of the Python standard library, in its default configuration (strict
  strings; \<^verbatim>\<open>NaN\<close>, \<^verbatim>\<open>Infinity\<close> and \<^verbatim>\<open>-Infinity\<close> accepted).  \<open>None\<close> stands for
  \<^verbatim>\<open>json.JSONDecodeError\<close>, the only exception the sources catch around it.  The interpreter's
  resource limits (recursion depth, the length limit of integer literals) are not modelled.
\<close>

definition json_ws :: "nat \<Rightarrow> bool" where
  "json_ws c \<longleftrightarrow> c = 32 \<or> c = 9 \<or> c = 10 \<or> c = 13"

definition skip_ws :: "pystr \<Rightarrow> pystr" where
  "skip_ws s = dropWhile json_ws s"

definition is_digit :: "nat \<Rightarrow> bool" where
  "is_digit c \<longleftrightarrow> 48 \<le> c \<and> c \<le> 57"

definition hexval :: "nat \<Rightarrow> nat option" where
  "hexval c =
     (if 48 \<le> c \<and> c \<le> 57 then Some (c - 48)
      else if 97 \<le> c \<and> c \<le> 102 then Some (c - 87)
      else if 65 \<le> c \<and> c \<le> 70 then Some (c - 55)
      else None)"

text \<open>The four hexadecimal digits of a \<^verbatim>\<open>\uXXXX\<close> escape.\<close>

fun hex4 :: "pystr \<Rightarrow> nat option" where
  "hex4 (a # b # c # d # rest) =
     (case (hexval a, hexval b, hexval c, hexval d) of
        (Some w, Some x, Some y, Some z) \<Rightarrow> Some (((w * 16 + x) * 16 + y) * 16 + z)
      | _ \<Rightarrow> None)"
| "hex4 _ = None"

definition escape_char :: "nat \<Rightarrow> nat option" where
  "escape_char e =
     (if e = QUOTE then Some QUOTE
      else if e = BACKSLASH then Some BACKSLASH
      else if e = 47 then Some 47
      else if e = 98 then Some 8
      else if e = 102 then Some 12
      else if e = 110 then Some 10
      else if e = 114 then Some 13
      else if e = 116 then Some 9
      else None)"

definition is_high_surrogate :: "nat \<Rightarrow> bool" where
  "is_high_surrogate u \<longleftrightarrow> 55296 \<le> u \<and> u \<le> 56319"

definition is_low_surrogate :: "nat \<Rightarrow> bool" where
  "is_low_surrogate u \<longleftrightarrow> 56320 \<le> u \<and> u \<le> 57343"

definition join_surrogates :: "nat \<Rightarrow> nat \<Rightarrow> nat" where
  "join_surrogates hi lo = 65536 + (hi - 55296) * 1024 + (lo - 56320)"

text \<open>
  The body of a string literal, after its opening quote: the decoded string and the text
  after the closing quote.
\<close>

fun scanstring :: "pystr \<Rightarrow> pystr \<Rightarrow> (pystr \<times> pystr) option" where
  "scanstring acc [] = None"
| "scanstring acc (c # cs) =
     (if c = QUOTE then Some (acc, cs)
      else if c = BACKSLASH then
        (case cs of
           [] \<Rightarrow> None
         | e # es \<Rightarrow>
             if e = 117 then
               (case hex4 es of
                  None \<Rightarrow> None
                | Some uni \<Rightarrow>
                    if is_high_surrogate uni \<and> startswith (drop 4 es) [BACKSLASH, 117] then
                      (case hex4 (drop 6 es) of
                         None \<Rightarrow> None
                       | Some uni2 \<Rightarrow>
                           if is_low_surrogate uni2
                           then scanstring (acc @ [join_surrogates uni uni2]) (drop 10 es)
                           else scanstring (acc @ [uni]) (drop 4 es))
                    else scanstring (acc @ [uni]) (drop 4 es))
             else
               (case escape_char e of
                  None \<Rightarrow> None
                | Some ch \<Rightarrow> scanstring (acc @ [ch]) es))
      else if c < 32 then None
      else scanstring (acc @ [c]) cs)"

text \<open>Number literals: \<^verbatim>\<open>-?(0|[1-9][0-9]*)(\.[0-9]+)?([eE][-+]?[0-9]+)?\<close>.\<close>

definition digits_value :: "pystr \<Rightarrow> nat" where
  "digits_value ds = foldl (\<lambda>a d. a * 10 + (d - 48)) 0 ds"

definition scale10 :: "real \<Rightarrow> int \<Rightarrow> real" where
  "scale10 x e = (if 0 \<le> e then x * 10 ^ nat e else x / 10 ^ nat (- e))"

text \<open>The integer part of a literal: \<^verbatim>\<open>0\<close> alone, or a run of digits that starts with no zero.\<close>

definition int_part :: "pystr \<Rightarrow> (pystr \<times> pystr) option" where
  "int_part s =
     (case s of
        [] \<Rightarrow> None
      | c # cs \<Rightarrow>
          if c = 48 then Some ([c], cs)
          else if is_digit c then Some (takeWhile is_digit s, dropWhile is_digit s)
          else None)"

definition frac_part :: "pystr \<Rightarrow> (pystr \<times> pystr) option" where
  "frac_part s =
     (case s of
        c # d # cs \<Rightarrow>
          if c = 46 \<and> is_digit d
          then Some (takeWhile is_digit (d # cs), dropWhile is_digit (d # cs))
          else None
      | _ \<Rightarrow> None)"

definition exp_digits :: "bool \<Rightarrow> pystr \<Rightarrow> (int \<times> pystr) option" where
  "exp_digits neg s =
     (case s of
        [] \<Rightarrow> None
      | d # ds \<Rightarrow>
          if is_digit d
          then Some ((if neg then - int (digits_value (takeWhile is_digit s))
                      else int (digits_value (takeWhile is_digit s))),
                     dropWhile is_digit s)
          else None)"

definition exp_part :: "pystr \<Rightarrow> (int \<times> pystr) option" where
  "exp_part s =
     (case s of
        [] \<Rightarrow> None
      | c # cs \<Rightarrow>
          if c = 101 \<or> c = 69 then
            (case cs of
               [] \<Rightarrow> None
             | g # gs \<Rightarrow>
                 if g = 45 then exp_digits True gs
                 else if g = 43 then exp_digits False gs
                 else exp_digits False cs)
          else None)"

definition match_number :: "pystr \<Rightarrow> (pyval \<times> pystr) option" where
  "match_number s =
     (let neg = (s \<noteq> [] \<and> hd s = 45);
          s1 = (if neg then tl s else s)
      in case int_part s1 of
           None \<Rightarrow> None
         | Some (ds, r1) \<Rightarrow>
             (case (frac_part r1) of
                None \<Rightarrow>
                  (case exp_part r1 of
                     None \<Rightarrow>
                       Some (PInt (if neg then - int (digits_value ds) else int (digits_value ds)), r1)
                   | Some (e, r3) \<Rightarrow>
                       Some (PFloat (Finite (scale10
                          (if neg then - real (digits_value ds) else real (digits_value ds)) e)), r3))
              | Some (fs, r2) \<Rightarrow>
                  (let m = real (digits_value ds) + real (digits_value fs) / 10 ^ length fs;
                       m' = (if neg then - m else m)
                   in case exp_part r2 of
                        None \<Rightarrow> Some (PFloat (Finite m'), r2)
                      | Some (e, r3) \<Rightarrow> Some (PFloat (Finite (scale10 m' e)), r3))))"

text \<open>
  The scanner, with fuel: every call consumes at least one character of the text, so
  \<open>length s + 1\<close> is always enough and \<open>json_loads\<close> never fails for lack of it.
  \<open>parse_members\<close> is entered at the place where a key has to start, \<open>parse_elements\<close> where an
  array element has to start.
\<close>

fun parse_value :: "nat \<Rightarrow> pystr \<Rightarrow> (pyval \<times> pystr) option"
  and parse_members :: "nat \<Rightarrow> pydict \<Rightarrow> pystr \<Rightarrow> (pyval \<times> pystr) option"
  and parse_elements :: "nat \<Rightarrow> pyval list \<Rightarrow> pystr \<Rightarrow> (pyval \<times> pystr) option" where
  "parse_value 0 s = None"
| "parse_value (Suc n) s =
     (case s of
        [] \<Rightarrow> None
      | c # cs \<Rightarrow>
          if c = QUOTE then
            (case scanstring [] cs of None \<Rightarrow> None | Some (str, r) \<Rightarrow> Some (PStr str, r))
          else if c = LBRACE then
            (if startswith (skip_ws cs) [RBRACE] then Some (PDict [], tl (skip_ws cs))
             else parse_members n [] (skip_ws cs))
          else if c = LBRACK then
            (if startswith (skip_ws cs) [RBRACK] then Some (PList [], tl (skip_ws cs))
             else parse_elements n [] (skip_ws cs))
          else if startswith s (py ''null'') then Some (PNone, drop 4 s)
          else if startswith s (py ''true'') then Some (PBool True, drop 4 s)
          else if startswith s (py ''false'') then Some (PBool False, drop 5 s)
          else if startswith s (py ''NaN'') then Some (PFloat NaN, drop 3 s)
          else if startswith s (py ''Infinity'') then Some (PFloat PosInf, drop 8 s)
          else if startswith s (py ''-Infinity'') then Some (PFloat NegInf, drop 9 s)
          else match_number s)"
| "parse_members 0 acc s = None"
| "parse_members (Suc n) acc s =
     (case s of
        [] \<Rightarrow> None
      | c # cs \<Rightarrow>
          if c \<noteq> QUOTE then None
          else
            (case scanstring [] cs of
               None \<Rightarrow> None
             | Some (key, r) \<Rightarrow>
                 if \<not> startswith (skip_ws r) [COLON] then None
                 else
                   (case parse_value n (skip_ws (tl (skip_ws r))) of
                      None \<Rightarrow> None
                    | Some (v, r2) \<Rightarrow>
                        if startswith (skip_ws r2) [RBRACE]
                        then Some (PDict (dict_set acc key v), tl (skip_ws r2))
                        else if startswith (skip_ws r2) [COMMA]
                        then parse_members n (dict_set acc key v) (skip_ws (tl (skip_ws r2)))
                        else None)))"
| "parse_elements 0 acc s = None"
| "parse_elements (Suc n) acc s =
     (case parse_value n s of
        None \<Rightarrow> None
      | Some (v, r) \<Rightarrow>
          if startswith (skip_ws r) [RBRACK] then Some (PList (acc @ [v]), tl (skip_ws r))
          else if startswith (skip_ws r) [COMMA]
          then parse_elements n (acc @ [v]) (skip_ws (tl (skip_ws r)))
          else None)"

definition json_loads :: "pystr \<Rightarrow> pyval option" where
  "json_loads s =
     (if startswith s [65279] then None
      else
        (case parse_value (length s + 1) (skip_ws s) of
           None \<Rightarrow> None
         | Some (v, r) \<Rightarrow> if skip_ws r = [] then Some v else None))"

section \<open>The JSON extractor (\<^verbatim>\<open>utils/utility.py\<close>)\<close>

text \<open>\<^verbatim>\<open>clean_trailing_commas\<close>: \<^verbatim>\<open>re.sub(r',\s*([\}\]])', r'\1', s)\<close>.\<close>

function clean_trailing_commas :: "pystr \<Rightarrow> pystr" where
  "clean_trailing_commas [] = []"
| "clean_trailing_commas (c # cs) =
     (if c = COMMA then
        (case dropWhile isspace cs of
           [] \<Rightarrow> c # clean_trailing_commas cs
         | d # ds \<Rightarrow>
             if d = RBRACE \<or> d = RBRACK then d # clean_trailing_commas ds
             else c # clean_trailing_commas cs)
      else c # clean_trailing_commas cs)"
  by pat_completeness auto
termination
proof (relation "measure length")
  fix c :: nat and cs :: pystr and d ds
  assume "dropWhile isspace cs = d # ds"
  then have "length (d # ds) \<le> length cs"
    using length_dropWhile_le [of isspace cs] by simp
  then show "(ds, c # cs) \<in> measure length" by simp
qed simp_all

definition fix_missing_braces :: "pystr \<Rightarrow> pystr" where
  "fix_missing_braces s =
     (let open_braces = count_char s LBRACE;
          close_braces = count_char s RBRACE
      in if open_braces > close_braces
         then s @ replicate (open_braces - close_braces) RBRACE
         else s)"

text \<open>
  The inner \<^verbatim>\<open>while\<close> loop of \<^verbatim>\<open>fix_missing_commas_between_keys\<close>: the last index at or below
  \<open>j\<close> whose line is not blank; \<open>None\<close> stands for \<open>j = -1\<close>.
\<close>

fun last_nonblank :: "pystr list \<Rightarrow> nat \<Rightarrow> nat option" where
  "last_nonblank lines 0 = (if strip (lines ! 0) \<noteq> [] then Some 0 else None)"
| "last_nonblank lines (Suc j) =
     (if strip (lines ! Suc j) \<noteq> [] then Some (Suc j) else last_nonblank lines j)"

text \<open>
  The \<^verbatim>\<open>for\<close> loop: \<open>i\<close> is the index of the line at the head of the remaining lines and
  \<open>fixed_lines\<close> holds the \<open>i\<close> lines already emitted.
\<close>

fun fix_lines :: "pystr list \<Rightarrow> nat \<Rightarrow> pystr list \<Rightarrow> pystr list \<Rightarrow> pystr list" where
  "fix_lines lines i [] fixed_lines = fixed_lines"
| "fix_lines lines i (line # rest) fixed_lines =
     (if i > 0 \<and> startswith (lstrip line) [QUOTE] \<and> last_nonblank lines (i - 1) \<noteq> None
         \<and> \<not> endswith (rstrip (last fixed_lines)) [COMMA]
      then fix_lines lines (i + 1) rest
             (butlast fixed_lines @ [rstrip (last fixed_lines) @ [COMMA]] @ [line])
      else fix_lines lines (i + 1) rest (fixed_lines @ [line]))"

definition fix_missing_commas_between_keys :: "pystr \<Rightarrow> pystr" where
  "fix_missing_commas_between_keys s =
     join [NEWLINE] (fix_lines (splitlines s) 0 (splitlines s) [])"

text \<open>
  The six repair statements that \<^verbatim>\<open>extract_json_from_response\<close> applies to every candidate
  (lines 186--191, 210--215 and 238--243 of the source are the same statements).
\<close>

definition is_nrt :: "nat \<Rightarrow> bool" where
  "is_nrt c \<longleftrightarrow> c = 10 \<or> c = 13 \<or> c = 9"

definition repair :: "pystr \<Rightarrow> pystr" where
  "repair s =
     (let c1 = sub_runs is_nrt False s;
          c2 = sub_runs isspace False c1;
          c3 = replace_char 8221 QUOTE (replace_char 8220 QUOTE c2);
          c4 = fix_missing_commas_between_keys c3;
          c5 = clean_trailing_commas c4
      in fix_missing_braces c5)"

text \<open>
  \<^verbatim>\<open>re.findall(r"```(?:json)?\s*(\{.*?\})\s*```", text, re.DOTALL)\<close>.  \<open>scan_body\<close> is the lazy
  \<^verbatim>\<open>.*?\<close>: it stops at the first closing brace that is followed by optional white space and a
  fence, and returns the group and the text after the match.
\<close>

definition fence :: pystr where
  "fence = [BACKTICK, BACKTICK, BACKTICK]"

fun scan_body :: "pystr \<Rightarrow> pystr \<Rightarrow> (pystr \<times> pystr) option" where
  "scan_body acc [] = None"
| "scan_body acc (c # cs) =
     (if c = RBRACE \<and> startswith (dropWhile isspace cs) fence
      then Some (acc @ [c], drop 3 (dropWhile isspace cs))
      else scan_body (acc @ [c]) cs)"

definition match_markdown :: "pystr \<Rightarrow> (pystr \<times> pystr) option" where
  "match_markdown s =
     (if \<not> startswith s fence then None
      else
        (let s1 = drop 3 s;
             s2 = (if startswith s1 (py ''json'') then drop 4 s1 else s1);
             s3 = dropWhile isspace s2
         in if startswith s3 [LBRACE] then scan_body [LBRACE] (tl s3) else None))"

function findall_markdown :: "pystr \<Rightarrow> pystr list" where
  "findall_markdown [] = []"
| "findall_markdown (c # cs) =
     (case match_markdown (c # cs) of
        None \<Rightarrow> findall_markdown cs
      | Some (g, rest) \<Rightarrow> g # findall_markdown rest)"
  by pat_completeness auto
termination
proof (relation "measure length")
  fix c :: nat and cs :: pystr and g rest x
  assume m: "match_markdown (c # cs) = Some x" and x: "(g, rest) = x"
  have body: "scan_body acc t = Some (h, r) \<Longrightarrow> length r \<le> length t" for acc t h r
  proof (induction t arbitrary: acc)
    case Nil
    then show ?case by simp
  next
    case (Cons a t)
    show ?case
    proof (cases "a = RBRACE \<and> startswith (dropWhile isspace t) fence")
      case True
      with Cons.prems have "r = drop 3 (dropWhile isspace t)" by simp
      then show ?thesis using length_dropWhile_le [of isspace t] by simp
    next
      case False
      with Cons.prems have "scan_body (acc @ [a]) t = Some (h, r)" by auto
      from Cons.IH [OF this] show ?thesis by simp
    qed
  qed
  from m x have f: "startswith (c # cs) fence"
    by (auto simp: match_markdown_def split: if_splits)
  from m x obtain t where t: "scan_body [LBRACE] t = Some (g, rest)"
      and len: "length t \<le> length (drop 3 (c # cs))"
  proof -
    let ?s1 = "drop 3 (c # cs)"
    let ?s2 = "if startswith ?s1 (py ''json'') then drop 4 ?s1 else ?s1"
    let ?s3 = "dropWhile isspace ?s2"
    from m x f have "scan_body [LBRACE] (tl ?s3) = Some (g, rest)"
      by (auto simp: match_markdown_def Let_def split: if_splits)
    moreover have "length (tl ?s3) \<le> length ?s1"
      using length_dropWhile_le [of isspace ?s2] by (simp split: if_splits)
    ultimately show ?thesis using that by blast
  qed
  from body [OF t] len have "length rest \<le> length (c # cs) - 3" by simp
  then show "(rest, c # cs) \<in> measure length" by simp
qed simp_all

text \<open>
  The fallback loop over \<^verbatim>\<open>enumerate(response_text)\<close>: \<open>i\<close> is the index of the head of the
  remaining text.  A block that does not parse leaves \<^verbatim>\<open>json_start\<close> as it is (the source
  \<^verbatim>\<open>continue\<close>s before resetting it).
\<close>

fun brace_scan ::
  "pystr \<Rightarrow> nat \<Rightarrow> pystr \<Rightarrow> int \<Rightarrow> nat option \<Rightarrow> pyval list \<Rightarrow> pyval list" where
  "brace_scan response_text i [] brace_count json_start json_blocks = json_blocks"
| "brace_scan response_text i (char # rest) brace_count json_start json_blocks =
     (if char = LBRACE then
        brace_scan response_text (i + 1) rest (brace_count + 1)
          (if brace_count = 0 then Some i else json_start) json_blocks
      else if char = RBRACE then
        (case json_start of
           None \<Rightarrow> brace_scan response_text (i + 1) rest (brace_count - 1) None json_blocks
         | Some start \<Rightarrow>
             if brace_count - 1 = 0 then
               (case json_loads (repair (take (i + 1 - start) (drop start response_text))) of
                  None \<Rightarrow>
                    brace_scan response_text (i + 1) rest (brace_count - 1) json_start json_blocks
                | Some json_obj \<Rightarrow>
                    brace_scan response_text (i + 1) rest (brace_count - 1) None
                      (json_blocks @ [json_obj]))
             else brace_scan response_text (i + 1) rest (brace_count - 1) json_start json_blocks)
      else brace_scan response_text (i + 1) rest brace_count json_start json_blocks)"

text \<open>The first tier: every fenced group is stripped, repaired and parsed; failures are skipped.\<close>

fun markdown_blocks :: "pystr list \<Rightarrow> pyval list" where
  "markdown_blocks [] = []"
| "markdown_blocks (m # ms) =
     (case json_loads (repair (strip m)) of
        None \<Rightarrow> markdown_blocks ms
      | Some json_obj \<Rightarrow> json_obj # markdown_blocks ms)"

fun is_dict :: "pyval \<Rightarrow> bool" where
  "is_dict (PDict kvs) = True"
| "is_dict _ = False"

text \<open>\<^verbatim>\<open>merged.update(block)\<close> for every block in turn.\<close>

fun merge_blocks :: "pydict \<Rightarrow> pyval list \<Rightarrow> pydict" where
  "merge_blocks merged [] = merged"
| "merge_blocks merged (PDict kvs # blocks) = merge_blocks (dict_update merged kvs) blocks"
| "merge_blocks merged (_ # blocks) = merge_blocks merged blocks"

definition no_valid_json :: pyval where
  "no_valid_json = PDict [(py ''error'', PStr (py ''No valid JSON found''))]"

text \<open>The last fallback (lines 234--250): wrap the stripped text in braces.\<close>

definition implicit_wrap :: "pystr \<Rightarrow> pyval" where
  "implicit_wrap response_text =
     (let cleaned_response = strip response_text
      in if \<not> startswith cleaned_response [LBRACE] \<and> COLON \<in> set cleaned_response then
           (case json_loads (repair ([LBRACE] @ cleaned_response @ [RBRACE])) of
              None \<Rightarrow> no_valid_json
            | Some json_obj \<Rightarrow> json_obj)
         else no_valid_json)"

definition extract_json_from_response :: "pystr \<Rightarrow> pyval" where
  "extract_json_from_response response_text =
     (let markdown_matches = findall_markdown response_text;
          json_blocks =
            (if markdown_matches \<noteq> [] then markdown_blocks markdown_matches
             else brace_scan response_text 0 response_text 0 None [])
      in if json_blocks \<noteq> [] then
           (if length json_blocks = 1 then hd json_blocks
            else if list_all is_dict json_blocks then PDict (merge_blocks [] json_blocks)
            else PList json_blocks)
         else implicit_wrap response_text)"

section \<open>The standard encoder \<^verbatim>\<open>json.dumps\<close>\<close>

text \<open>
  \<^verbatim>\<open>json.dumps(v, indent=..., ensure_ascii=...)\<close>.  Without \<^verbatim>\<open>indent\<close> the separators are
  \<^verbatim>\<open>", "\<close> and \<^verbatim>\<open>": "\<close>; with it they are \<^verbatim>\<open>","\<close> and \<^verbatim>\<open>": "\<close> and every element starts a
  new line.  The text of a finite float is Python's \<^verbatim>\<open>float.__repr__\<close>, which the idealised
  floats cannot compute: it is the parameter \<open>repr\<close>, Python's \<^verbatim>\<open>repr\<close> on values.
\<close>

definition hex_digit :: "nat \<Rightarrow> nat" where
  "hex_digit d = (if d < 10 then 48 + d else 87 + d)"

definition u_escape :: "nat \<Rightarrow> pystr" where
  "u_escape n =
     [BACKSLASH, 117, hex_digit (n div 4096 mod 16), hex_digit (n div 256 mod 16),
      hex_digit (n div 16 mod 16), hex_digit (n mod 16)]"

definition short_escape :: "nat \<Rightarrow> pystr option" where
  "short_escape c =
     (if c = QUOTE then Some [BACKSLASH, QUOTE]
      else if c = BACKSLASH then Some [BACKSLASH, BACKSLASH]
      else if c = 10 then Some [BACKSLASH, 110]
      else if c = 13 then Some [BACKSLASH, 114]
      else if c = 9 then Some [BACKSLASH, 116]
      else if c = 8 then Some [BACKSLASH, 98]
      else if c = 12 then Some [BACKSLASH, 102]
      else None)"

definition encode_char :: "bool \<Rightarrow> nat \<Rightarrow> pystr" where
  "encode_char ensure_ascii c =
     (case short_escape c of
        Some e \<Rightarrow> e
      | None \<Rightarrow>
          if c < 32 then u_escape c
          else if \<not> ensure_ascii \<or> c \<le> 126 then [c]
          else if c < 65536 then u_escape c
          else u_escape (55296 + (c - 65536) div 1024 mod 1024)
                 @ u_escape (56320 + (c - 65536) mod 1024))"

definition encode_string :: "bool \<Rightarrow> pystr \<Rightarrow> pystr" where
  "encode_string ensure_ascii s = [QUOTE] @ concat (map (encode_char ensure_ascii) s) @ [QUOTE]"

fun dec_nat :: "nat \<Rightarrow> pystr" where
  "dec_nat n = (if n < 10 then [48 + n] else dec_nat (n div 10) @ [48 + n mod 10])"

definition str_int :: "int \<Rightarrow> pystr" where
  "str_int i = (if i < 0 then 45 # dec_nat (nat (- i)) else dec_nat (nat i))"

definition newline_indent :: "nat option \<Rightarrow> nat \<Rightarrow> pystr" where
  "newline_indent indent level =
     (case indent of None \<Rightarrow> [] | Some n \<Rightarrow> NEWLINE # replicate (n * level) SPACE)"

definition item_separator :: "nat option \<Rightarrow> pystr" where
  "item_separator indent = (case indent of None \<Rightarrow> [COMMA, SPACE] | Some n \<Rightarrow> [COMMA])"

fun dumps_at :: "(pyval \<Rightarrow> pystr) \<Rightarrow> bool \<Rightarrow> nat option \<Rightarrow> nat \<Rightarrow> pyval \<Rightarrow> pystr"
  and dumps_elements ::
    "(pyval \<Rightarrow> pystr) \<Rightarrow> bool \<Rightarrow> nat option \<Rightarrow> nat \<Rightarrow> pyval list \<Rightarrow> pystr list"
  and dumps_members ::
    "(pyval \<Rightarrow> pystr) \<Rightarrow> bool \<Rightarrow> nat option \<Rightarrow> nat \<Rightarrow> pydict \<Rightarrow> pystr list" where
  "dumps_at repr ea indent level PNone = py ''null''"
| "dumps_at repr ea indent level (PBool b) = (if b then py ''true'' else py ''false'')"
| "dumps_at repr ea indent level (PInt i) = str_int i"
| "dumps_at repr ea indent level (PFloat f) =
     (case f of
        Finite r \<Rightarrow> repr (PFloat f)
      | PosInf \<Rightarrow> py ''Infinity''
      | NegInf \<Rightarrow> py ''-Infinity''
      | NaN \<Rightarrow> py ''NaN'')"
| "dumps_at repr ea indent level (PStr s) = encode_string ea s"
| "dumps_at repr ea indent level (PList xs) =
     (if xs = [] then py ''[]''
      else [LBRACK] @ newline_indent indent (level + 1)
           @ join (item_separator indent @ newline_indent indent (level + 1))
               (dumps_elements repr ea indent (level + 1) xs)
           @ newline_indent indent level @ [RBRACK])"
| "dumps_at repr ea indent level (PDict kvs) =
     (if kvs = [] then py ''{}''
      else [LBRACE] @ newline_indent indent (level + 1)
           @ join (item_separator indent @ newline_indent indent (level + 1))
               (dumps_members repr ea indent (level + 1) kvs)
           @ newline_indent indent level @ [RBRACE])"
| "dumps_elements repr ea indent level [] = []"
| "dumps_elements repr ea indent level (x # xs) =
     dumps_at repr ea indent level x # dumps_elements repr ea indent level xs"
| "dumps_members repr ea indent level [] = []"
| "dumps_members repr ea indent level ((k, v) # kvs) =
     (encode_string ea k @ [COLON, SPACE] @ dumps_at repr ea indent level v)
       # dumps_members repr ea indent level kvs"

text \<open>\<^verbatim>\<open>json.dumps(v)\<close>, \<^verbatim>\<open>json.dumps(v, indent=2)\<close> and \<^verbatim>\<open>json.dumps(v, indent=2, ensure_ascii=False)\<close>.\<close>

definition json_dumps :: "(pyval \<Rightarrow> pystr) \<Rightarrow> pyval \<Rightarrow> pystr" where
  "json_dumps repr v = dumps_at repr True None 0 v"

definition json_dumps_indent2 :: "(pyval \<Rightarrow> pystr) \<Rightarrow> bool \<Rightarrow> pyval \<Rightarrow> pystr" where
  "json_dumps_indent2 repr ensure_ascii v = dumps_at repr ensure_ascii (Some 2) 0 v"

section \<open>The prompt builder (\<^verbatim>\<open>prompter/prompter.py\<close>, \<^verbatim>\<open>prompter/strategies\<close>)\<close>

text \<open>
  The registry of \<^verbatim>\<open>strategies/base.py\<close> holds the three classes registered under
  \<^verbatim>\<open>"zero"\<close>, \<^verbatim>\<open>"few"\<close> and \<^verbatim>\<open>"raw"\<close>.  The template files of \<^verbatim>\<open>prompter/templates\<close> are
  not part of the sources: the list of placeholder names that \<^verbatim>\<open>yaml.safe_load\<close> returns is the
  parameter \<open>order\<close>.
\<close>

datatype strategy = ZeroShot | FewShot | Raw

text \<open>\<^verbatim>\<open>"\n".join(v)\<close> on a value: a list of strings, the characters of a string, the keys of a
  dict; anything else, and any element that is no string, is a \<^verbatim>\<open>TypeError\<close>.\<close>

fun the_strs :: "pyval list \<Rightarrow> pystr list option" where
  "the_strs [] = Some []"
| "the_strs (PStr s # xs) = (case the_strs xs of None \<Rightarrow> None | Some ss \<Rightarrow> Some (s # ss))"
| "the_strs (_ # xs) = None"

fun newline_join :: "pyval \<Rightarrow> error + pystr" where
  "newline_join (PList xs) =
     (case the_strs xs of None \<Rightarrow> Inl TypeError | Some ss \<Rightarrow> Inr (join [NEWLINE] ss))"
| "newline_join (PStr s) = Inr (join [NEWLINE] (map (\<lambda>c. [c]) s))"
| "newline_join (PDict kvs) = Inr (join [NEWLINE] (map fst kvs))"
| "newline_join _ = Inl TypeError"

text \<open>\<^verbatim>\<open>FewShot._select_examples\<close>.\<close>

definition select_examples :: "pydict \<Rightarrow> error + pyval" where
  "select_examples ph =
     (let inside =
            py_or (get ph (py ''EXAMPLES''))
              (py_or (get ph (py ''examples''))
                 (py_or (get ph (py ''EXAMPLE''))
                    (py_or (get ph (py ''example'')) (PList []))))
      in if truthy inside then Inr inside else Inl ValueError)"

text \<open>\<^verbatim>\<open>placeholder_values\<close> of the three strategies.\<close>

fun placeholder_values :: "(pyval \<Rightarrow> pystr) \<Rightarrow> strategy \<Rightarrow> pydict \<Rightarrow> error + pydict" where
  "placeholder_values repr ZeroShot ph =
     Inr [(py ''PERSONA'', get_default ph (py ''PERSONA'') (PStr [])),
          (py ''TASK'', get_default ph (py ''TASK'') (PStr [])),
          (py ''INSTRUCTIONS'', get_default ph (py ''INSTRUCTIONS'') (PList [])),
          (py ''SCHEMAS'', get_default ph (py ''SCHEMAS'') (PDict []))]"
| "placeholder_values repr FewShot ph =
     (case select_examples ph of
        Inl e \<Rightarrow> Inl e
      | Inr examples \<Rightarrow>
          (case newline_join (get_default ph (py ''INSTRUCTIONS'') (PList [])) of
             Inl e \<Rightarrow> Inl e
           | Inr instructions \<Rightarrow>
               Inr [(py ''PERSONA'', get_default ph (py ''PERSONA'') (PStr [])),
                    (py ''TASK'', get_default ph (py ''TASK'') (PStr [])),
                    (py ''INSTRUCTIONS'', PStr instructions),
                    (py ''SCHEMAS'',
                       PStr (json_dumps_indent2 repr True
                               (get_default ph (py ''SCHEMAS'') (PDict [])))),
                    (py ''EXAMPLE'', PStr (json_dumps_indent2 repr False examples))]))"
| "placeholder_values repr Raw ph =
     Inr [(py ''PROMPT'', get_default ph (py ''PROMPT'') (PStr []))]"

text \<open>\<^verbatim>\<open>str(value)\<close>: a string is itself, any other value is printed by \<^verbatim>\<open>repr\<close>.\<close>

definition py_str :: "(pyval \<Rightarrow> pystr) \<Rightarrow> pyval \<Rightarrow> pystr" where
  "py_str repr v = (case v of PStr s \<Rightarrow> s | _ \<Rightarrow> repr v)"

definition json_or_str :: "(pyval \<Rightarrow> pystr) \<Rightarrow> pyval \<Rightarrow> pystr" where
  "json_or_str repr v = (case v of PStr s \<Rightarrow> s | _ \<Rightarrow> json_dumps_indent2 repr False v)"

fun is_list :: "pyval \<Rightarrow> bool" where
  "is_list (PList xs) = True"
| "is_list _ = False"

definition wrap :: "(pyval \<Rightarrow> pystr) \<Rightarrow> pystr \<Rightarrow> pyval \<Rightarrow> error + pystr" where
  "wrap repr placeholder v =
     (if v = PNone \<or> v = PStr [] then Inr []
      else if placeholder = py ''INSTRUCTIONS'' \<and> is_list v then newline_join v
      else if placeholder = py ''SCHEMAS'' then Inr (py ''Schema:'' @ [NEWLINE] @ json_or_str repr v)
      else if placeholder = py ''EXAMPLE'' \<or> placeholder = py ''EXAMPLES''
      then Inr (py ''Examples:'' @ [NEWLINE] @ json_or_str repr v)
      else Inr (py_str repr v))"

text \<open>The loop of \<^verbatim>\<open>Prompter.build\<close> over the template.\<close>

fun build_sections ::
  "(pyval \<Rightarrow> pystr) \<Rightarrow> pydict \<Rightarrow> pydict \<Rightarrow> pystr list \<Rightarrow> pystr list \<Rightarrow> error + pystr list" where
  "build_sections repr vals ph [] sections = Inr sections"
| "build_sections repr vals ph (key # order) sections =
     (case wrap repr key (py_or (get vals key) (get ph key)) of
        Inl e \<Rightarrow> Inl e
      | Inr part \<Rightarrow>
          build_sections repr vals ph order (if part \<noteq> [] then sections @ [part] else sections))"

definition setdefault :: "pydict \<Rightarrow> pystr \<Rightarrow> pyval \<Rightarrow> pydict" where
  "setdefault d k v = (case dict_get d k of None \<Rightarrow> dict_set d k v | Some _ \<Rightarrow> d)"

definition build :: "(pyval \<Rightarrow> pystr) \<Rightarrow> strategy \<Rightarrow> pydict \<Rightarrow> pystr list \<Rightarrow> error + pystr" where
  "build repr strat ph order =
     (case placeholder_values repr strat ph of
        Inl e \<Rightarrow> Inl e
      | Inr vals \<Rightarrow>
          (case build_sections repr
                  (setdefault vals (py ''TASK'') (get_default ph (py ''TASK'') (PStr [])))
                  ph order [] of
             Inl e \<Rightarrow> Inl e
           | Inr sections \<Rightarrow> Inr (strip (join [NEWLINE, NEWLINE] sections))))"

text \<open>\<^verbatim>\<open>needle in haystack\<close> on strings.\<close>

fun contains :: "pystr \<Rightarrow> pystr \<Rightarrow> bool" where
  "contains [] needle = (needle = [])"
| "contains (c # cs) needle = (startswith (c # cs) needle \<or> contains cs needle)"

section \<open>The two stages (\<^verbatim>\<open>extractor/classifier.py\<close>, \<^verbatim>\<open>extractor/structurer.py\<close>)\<close>

text \<open>
  What a stage finds outside itself: the language model, whose call
  \<^verbatim>\<open>self.llm.inference(prompt)["generated_text"]\<close> returns a text or raises (\<open>None\<close>), the clock
  \<^verbatim>\<open>time.time()\<close>, and \<^verbatim>\<open>str.lower\<close>, whose Unicode case mapping is left open.  The model and the
  clock may depend on everything that happened before: they run on a state \<open>'s\<close> that every call
  passes on.  The logger and the progress tracker only report and are left out.
\<close>

record 's runtime =
  inference :: "pystr \<Rightarrow> 's \<Rightarrow> pystr option \<times> 's"
  time_time :: "'s \<Rightarrow> real \<times> 's"
  lower :: "pystr \<Rightarrow> pystr"

text \<open>\<^verbatim>\<open>round(x, 2)\<close> on idealised floats: to the nearest hundredth, ties to the even one.\<close>

definition round2 :: "real \<Rightarrow> real" where
  "round2 x =
     (let y = x * 100; f = \<lfloor>y\<rfloor>
      in (if y - of_int f < 1 / 2 then of_int f
          else if y - of_int f > 1 / 2 then of_int (f + 1)
          else if even f then of_int f else of_int (f + 1)) / 100)"

fun round2_float :: "pyfloat \<Rightarrow> pyfloat" where
  "round2_float (Finite r) = Finite (round2 r)"
| "round2_float f = f"

text \<open>\<^verbatim>\<open>x + v\<close> for a float \<open>x\<close>: \<open>None\<close> is the \<^verbatim>\<open>TypeError\<close> of a value that is no number.\<close>

fun float_add :: "real \<Rightarrow> pyval \<Rightarrow> pyfloat option" where
  "float_add x (PInt i) = Some (Finite (x + of_int i))"
| "float_add x (PBool b) = Some (Finite (x + (if b then 1 else 0)))"
| "float_add x (PFloat (Finite r)) = Some (Finite (x + r))"
| "float_add x (PFloat f) = Some f"
| "float_add x _ = None"

text \<open>\<^verbatim>\<open>(item.get("Text") or item.get("text") or "").strip()\<close>.\<close>

definition item_text :: "pydict \<Rightarrow> error + pystr" where
  "item_text item =
     (case py_or (py_or (get item (py ''Text'')) (get item (py ''text''))) (PStr []) of
        PStr t \<Rightarrow> Inr (strip t)
      | _ \<Rightarrow> Inl AttributeError)"

definition make_prompt :: "pystr \<Rightarrow> pystr \<Rightarrow> pystr" where
  "make_prompt base_prompt text =
     base_prompt @ [NEWLINE, NEWLINE] @ py ''\"text\": \"'' @ text @ [QUOTE]"

text \<open>
  The statements of the \<^verbatim>\<open>try\<close> block up to the second reading of the clock: the raw text
  and the seconds elapsed, or \<open>None\<close> when the call raised.
\<close>

definition timed_inference :: "'s runtime \<Rightarrow> pystr \<Rightarrow> 's \<Rightarrow> (pystr \<times> real) option \<times> 's" where
  "timed_inference rt prompt s =
     (case time_time rt s of
        (start_time, s1) \<Rightarrow>
          (case inference rt prompt s1 of
             (None, s2) \<Rightarrow> (None, s2)
           | (Some raw, s2) \<Rightarrow>
               (case time_time rt s2 of (t, s3) \<Rightarrow> (Some (raw, t - start_time), s3))))"

text \<open>\<^verbatim>\<open>parsed.get(key)\<close>: only a dict has the method.\<close>

definition parsed_get :: "pyval \<Rightarrow> pystr \<Rightarrow> error + pyval" where
  "parsed_get parsed key =
     (case parsed of PDict kvs \<Rightarrow> Inr (get kvs key) | _ \<Rightarrow> Inl AttributeError)"

text \<open>\<^verbatim>\<open>(parsed.get("classification") or "").lower().strip()\<close>.\<close>

definition parsed_label :: "'s runtime \<Rightarrow> pyval \<Rightarrow> error + pystr" where
  "parsed_label rt parsed =
     (case parsed_get parsed (py ''classification'') of
        Inl e \<Rightarrow> Inl e
      | Inr v \<Rightarrow>
          (case py_or v (PStr []) of
             PStr l \<Rightarrow> Inr (strip (lower rt l))
           | _ \<Rightarrow> Inl AttributeError))"

definition force_label :: "pystr \<Rightarrow> pystr" where
  "force_label label =
     (if label \<noteq> py ''relevant'' \<and> label \<noteq> py ''irrelevant'' then py ''irrelevant'' else label)"

text \<open>
  The body of the loop of \<^verbatim>\<open>Classifier.predict\<close> for one item: the record and its label, or
  the exception that leaves the loop.
\<close>

definition Classifier_item ::
  "'s runtime \<Rightarrow> pystr \<Rightarrow> pydict \<Rightarrow> 's \<Rightarrow> (error + pydict \<times> pystr) \<times> 's" where
  "Classifier_item rt base_prompt item s =
     (case item_text item of
        Inl e \<Rightarrow> (Inl e, s)
      | Inr text \<Rightarrow>
          (let prompt = make_prompt base_prompt text
           in case timed_inference rt prompt s of
                (res, s') \<Rightarrow>
                  (let raw = (case res of None \<Rightarrow> [] | Some (r, el) \<Rightarrow> r);
                       duration =
                         (case res of None \<Rightarrow> PNone | Some (r, el) \<Rightarrow> PFloat (Finite (round2 el)))
                   in case parsed_label rt (extract_json_from_response raw) of
                        Inl e \<Rightarrow> (Inl e, s')
                      | Inr l \<Rightarrow>
                          (Inr (dict_update item
                                  [(py ''classification'', PStr (force_label l)),
                                   (py ''raw_output'', PStr raw),
                                   (py ''prompt'', PStr prompt),
                                   (py ''duration'', duration)],
                                force_label l), s'))))"

fun Classifier_loop ::
  "'s runtime \<Rightarrow> pystr \<Rightarrow> pydict list \<Rightarrow> pydict list \<Rightarrow> pydict list \<Rightarrow> 's
     \<Rightarrow> (error + pydict list \<times> pydict list \<times> pystr) \<times> 's" where
  "Classifier_loop rt base_prompt [] full relevant s = (Inr (full, relevant, base_prompt), s)"
| "Classifier_loop rt base_prompt (item # dataset) full relevant s =
     (case Classifier_item rt base_prompt item s of
        (Inl e, s') \<Rightarrow> (Inl e, s')
      | (Inr (rec, label), s') \<Rightarrow>
          Classifier_loop rt base_prompt dataset (full @ [rec])
            (if label = py ''relevant'' then relevant @ [rec] else relevant) s')"

definition Classifier_predict ::
  "'s runtime \<Rightarrow> pystr \<Rightarrow> pydict list \<Rightarrow> 's
     \<Rightarrow> (error + pydict list \<times> pydict list \<times> pystr) \<times> 's" where
  "Classifier_predict rt base_prompt dataset s = Classifier_loop rt base_prompt dataset [] [] s"

text \<open>
  The constructors of both stages build the base prompt
  (\<^verbatim>\<open>self.base_prompt = Prompter(...).build()\<close>); an exception of \<^verbatim>\<open>build\<close> leaves the constructor.
\<close>

definition Classifier_init ::
  "(pyval \<Rightarrow> pystr) \<Rightarrow> strategy \<Rightarrow> pydict \<Rightarrow> pystr list \<Rightarrow> error + pystr" where
  "Classifier_init repr prompt_mode schema order = build repr prompt_mode schema order"

definition Structurer_init ::
  "(pyval \<Rightarrow> pystr) \<Rightarrow> strategy \<Rightarrow> pydict \<Rightarrow> pystr list \<Rightarrow> error + pystr" where
  "Structurer_init repr prompt_mode schema order = build repr prompt_mode schema order"

text \<open>Construction followed by \<^verbatim>\<open>predict\<close>, as \<^verbatim>\<open>ExtractorPipeline.run\<close> does it.\<close>

definition classify ::
  "'s runtime \<Rightarrow> (pyval \<Rightarrow> pystr) \<Rightarrow> strategy \<Rightarrow> pydict \<Rightarrow> pystr list \<Rightarrow> pydict list \<Rightarrow> 's
     \<Rightarrow> (error + pydict list \<times> pydict list \<times> pystr) \<times> 's" where
  "classify rt repr prompt_mode schema order dataset s =
     (case Classifier_init repr prompt_mode schema order of
        Inl e \<Rightarrow> (Inl e, s)
      | Inr base_prompt \<Rightarrow> Classifier_predict rt base_prompt dataset s)"

text \<open>
  The \<^verbatim>\<open>try\<close> block of \<^verbatim>\<open>Structurer.predict\<close>: the upstream duration is added inside it, so a
  value that is no number raises there and is handled as a failed call.
\<close>

definition Structurer_call ::
  "'s runtime \<Rightarrow> pystr \<Rightarrow> pydict \<Rightarrow> 's \<Rightarrow> (pystr \<times> pyval) \<times> 's" where
  "Structurer_call rt prompt item s =
     (case timed_inference rt prompt s of
        (None, s') \<Rightarrow> (([], PNone), s')
      | (Some (r, el), s') \<Rightarrow>
          (case float_add el (get item (py ''duration'')) of
             None \<Rightarrow> (([], PNone), s')
           | Some f \<Rightarrow> ((r, PFloat (round2_float f)), s')))"

definition Structurer_item ::
  "'s runtime \<Rightarrow> pystr \<Rightarrow> pydict \<Rightarrow> 's \<Rightarrow> (error + pydict) \<times> 's" where
  "Structurer_item rt base_prompt item s =
     (case item_text item of
        Inl e \<Rightarrow> (Inl e, s)
      | Inr text \<Rightarrow>
          (let prompt = make_prompt base_prompt text
           in case Structurer_call rt prompt item s of
                ((raw, duration), s') \<Rightarrow>
                  (Inr (dict_update item
                          [(py ''data'', extract_json_from_response raw),
                           (py ''raw_output'', PStr raw),
                           (py ''prompt'', PStr prompt),
                           (py ''duration'', duration)]), s')))"

fun Structurer_loop ::
  "'s runtime \<Rightarrow> pystr \<Rightarrow> pydict list \<Rightarrow> pydict list \<Rightarrow> 's
     \<Rightarrow> (error + pydict list \<times> pystr) \<times> 's" where
  "Structurer_loop rt base_prompt [] results s = (Inr (results, base_prompt), s)"
| "Structurer_loop rt base_prompt (item # dataset) results s =
     (case Structurer_item rt base_prompt item s of
        (Inl e, s') \<Rightarrow> (Inl e, s')
      | (Inr rec, s') \<Rightarrow> Structurer_loop rt base_prompt dataset (results @ [rec]) s')"

definition Structurer_predict ::
  "'s runtime \<Rightarrow> pystr \<Rightarrow> pydict list \<Rightarrow> 's \<Rightarrow> (error + pydict list \<times> pystr) \<times> 's" where
  "Structurer_predict rt base_prompt dataset s = Structurer_loop rt base_prompt dataset [] s"

section \<open>Concrete surroundings for running the model\<close>

text \<open>
  A scripted language model: the state is the list of the answers still to come, each with the
  seconds it takes (\<open>None\<close> raises), and the clock.  \<open>ascii_lower\<close> is \<^verbatim>\<open>str.lower\<close> on ASCII
  text.  \<open>repr_unused\<close> serves where no float and no \<^verbatim>\<open>str\<close> of a container is ever printed.
\<close>

definition ascii_lower :: "pystr \<Rightarrow> pystr" where
  "ascii_lower s = map (\<lambda>c. if 65 \<le> c \<and> c \<le> 90 then c + 32 else c) s"

type_synonym script = "(pystr option \<times> real) list \<times> real"

definition scripted :: "script runtime" where
  "scripted =
     \<lparr> inference = (\<lambda>prompt (answers, now).
          case answers of
            [] \<Rightarrow> (None, ([], now))
          | (a, seconds) # rest \<Rightarrow> (a, (rest, now + seconds))),
       time_time = (\<lambda>(answers, now). (now, (answers, now))),
       lower = ascii_lower \<rparr>"

definition repr_unused :: "pyval \<Rightarrow> pystr" where
  "repr_unused v = []"

section \<open>Notions used to state the properties\<close>

text \<open>A record counts as relevant by its \<^verbatim>\<open>classification\<close> field.\<close>

definition is_relevant :: "pydict \<Rightarrow> bool" where
  "is_relevant r \<longleftrightarrow> get r (py ''classification'') = PStr (py ''relevant'')"

text \<open>The schema holds nothing that Python takes for true under any of the four example keys.\<close>

definition no_examples :: "pydict \<Rightarrow> bool" where
  "no_examples ph \<longleftrightarrow>
     \<not> truthy (get ph (py ''EXAMPLES'')) \<and> \<not> truthy (get ph (py ''examples''))
     \<and> \<not> truthy (get ph (py ''EXAMPLE'')) \<and> \<not> truthy (get ph (py ''example''))"

text \<open>A small run: two paragraphs, the model answers the first and raises on the second.\<close>

definition demo_dataset :: "pydict list" where
  "demo_dataset = [[(py ''Text'', PStr (py ''p''))], [(py ''text'', PStr (py ''q''))]]"

definition demo_script :: script where
  "demo_script = ([(Some (py ''{\"classification\": \"Relevant\"}''), 2), (None, 1)], 0)"

definition demo_relevant :: pydict where
  "demo_relevant =
     [(py ''Text'', PStr (py ''p'')),
      (py ''classification'', PStr (py ''relevant'')),
      (py ''raw_output'', PStr (py ''{\"classification\": \"Relevant\"}'')),
      (py ''prompt'', PStr (py ''B'' @ [NEWLINE, NEWLINE] @ py ''\"text\": \"p\"'')),
      (py ''duration'', PFloat (Finite 2))]"

definition demo_irrelevant :: pydict where
  "demo_irrelevant =
     [(py ''text'', PStr (py ''q'')),
      (py ''classification'', PStr (py ''irrelevant'')),
      (py ''raw_output'', PStr []),
      (py ''prompt'', PStr (py ''B'' @ [NEWLINE, NEWLINE] @ py ''\"text\": \"q\"'')),
      (py ''duration'', PNone)]"

text \<open>Texts and schemas on which the claims are tried.\<close>

definition scenario_B :: pystr where
  "scenario_B = py ''key1: \"a\"'' @ [NEWLINE] @ py ''key2: \"b\"''"

definition fenced_and_bare :: pystr where
  "fenced_and_bare = py ''```{x}``` {\"a\": 1}''"

definition schema_with_example :: pydict where
  "schema_with_example =
     [(py ''PERSONA'', PStr (py ''P'')),
      (py ''EXAMPLE'',
         PList [PDict [(py ''text'', PStr (py ''t'')),
                       (py ''classification'', PStr (py ''relevant''))]])]"

definition schema_without_examples :: pydict where
  "schema_without_examples = [(py ''PERSONA'', PStr (py ''P'')), (py ''EXAMPLES'', PList [])]"

definition full_order :: "pystr list" where
  "full_order = [py ''PERSONA'', py ''TASK'', py ''INSTRUCTIONS'', py ''SCHEMAS'', py ''EXAMPLE'']"

text \<open>The text starts with an opening brace.\<close>

definition opens_brace :: "pystr \<Rightarrow> bool" where
  "opens_brace s \<longleftrightarrow> (\<exists>r. s = LBRACE # r)"

text \<open>
  Plain values: null, booleans, integers, strings of printable ASCII characters without the
  double quote, the backslash, the backtick, braces and the closing bracket and without two
  spaces in a row, and lists and dicts (with distinct keys) of plain values.
\<close>

definition plain_char :: "nat \<Rightarrow> bool" where
  "plain_char c \<longleftrightarrow>
     32 \<le> c \<and> c \<le> 126 \<and> c \<noteq> QUOTE \<and> c \<noteq> BACKSLASH \<and> c \<noteq> BACKTICK
     \<and> c \<noteq> LBRACE \<and> c \<noteq> RBRACE \<and> c \<noteq> RBRACK"

fun sparse :: "pystr \<Rightarrow> bool" where
  "sparse (c # d # cs) = (\<not> (c = SPACE \<and> d = SPACE) \<and> sparse (d # cs))"
| "sparse _ = True"

definition plain_str :: "pystr \<Rightarrow> bool" where
  "plain_str s \<longleftrightarrow> list_all plain_char s \<and> sparse s"

fun plain :: "pyval \<Rightarrow> bool"
  and plains :: "pyval list \<Rightarrow> bool"
  and plain_members :: "pydict \<Rightarrow> bool" where
  "plain PNone = True"
| "plain (PBool b) = True"
| "plain (PInt i) = True"
| "plain (PFloat f) = False"
| "plain (PStr s) = plain_str s"
| "plain (PList xs) = plains xs"
| "plain (PDict kvs) = plain_members kvs"
| "plains [] = True"
| "plains (x # xs) = (plain x \<and> plains xs)"
| "plain_members [] = True"
| "plain_members ((k, v) # kvs) =
     (plain_str k \<and> k \<notin> fst ` set kvs \<and> plain v \<and> plain_members kvs)"

text \<open>
  Properties of a text that the repair steps and the brace-counting scan depend on: the
  characters are printable ASCII without the backtick; no two neighbours are both spaces, and
  no closing brace or bracket follows a comma or a space; the text starts and ends like a JSON
  value; at depth \<open>d\<close> the scan comes back to depth \<open>d\<close> without reaching depth zero on the way.
\<close>

definition chars_ok :: "pystr \<Rightarrow> bool" where
  "chars_ok s \<longleftrightarrow> list_all (\<lambda>c. 32 \<le> c \<and> c \<le> 126 \<and> c \<noteq> BACKTICK) s"

definition neighbours :: "nat \<Rightarrow> nat \<Rightarrow> bool" where
  "neighbours c d \<longleftrightarrow>
     \<not> (c = SPACE \<and> d = SPACE) \<and> \<not> ((c = COMMA \<or> c = SPACE) \<and> (d = RBRACE \<or> d = RBRACK))"

fun pairs_ok :: "pystr \<Rightarrow> bool" where
  "pairs_ok (c # d # cs) = (neighbours c d \<and> pairs_ok (d # cs))"
| "pairs_ok _ = True"

definition solid :: "pystr \<Rightarrow> bool" where
  "solid s \<longleftrightarrow>
     s \<noteq> [] \<and> hd s \<noteq> SPACE \<and> hd s \<noteq> RBRACE \<and> hd s \<noteq> RBRACK
     \<and> last s \<noteq> SPACE \<and> last s \<noteq> COMMA"

fun inner :: "int \<Rightarrow> pystr \<Rightarrow> int option" where
  "inner d [] = Some d"
| "inner d (c # cs) =
     (if c = LBRACE then inner (d + 1) cs
      else if c = RBRACE then (if d - 1 < 1 then None else inner (d - 1) cs)
      else inner d cs)"

definition wellformed_text :: "pystr \<Rightarrow> bool" where
  "wellformed_text t \<longleftrightarrow>
     chars_ok t \<and> pairs_ok t \<and> solid t \<and> (\<forall>d\<ge>1. inner d t = Some d)"

text \<open>What follows a value in a JSON text: nothing, a comma or a closing brace or bracket.\<close>

definition stops :: "pystr \<Rightarrow> bool" where
  "stops rest \<longleftrightarrow> rest = [] \<or> hd rest = COMMA \<or> hd rest = RBRACE \<or> hd rest = RBRACK"

text \<open>
  The text \<^verbatim>\<open>{"a": "x\u0020\u0020y"}\<close>, whose string holds two spaces written as escapes, and a
  text whose object is plain.
\<close>

definition escaped_spaces :: pystr where
  "escaped_spaces =
     py ''{\"a\": \"x'' @ [BACKSLASH] @ py ''u0020'' @ [BACKSLASH] @ py ''u0020y\"}''"

definition plain_raw :: pystr where
  "plain_raw = py ''Answer: {\"a\": \"x y\", \"n\": [1, {\"b\": null}]}''"

section \<open>Evaluation of the model on concrete inputs\<close>

lemmas ev = py_def startswith_def endswith_def skip_ws_def json_ws_def isspace_def is_nrt_def
  is_linebreak_def strip_def lstrip_def rstrip_def splitlines_def replace_char_def count_char_def
  fence_def match_markdown_def repair_def fix_missing_braces_def fix_missing_commas_between_keys_def
  json_loads_def implicit_wrap_def extract_json_from_response_def no_valid_json_def
  match_number_def int_part_def frac_part_def exp_part_def exp_digits_def is_digit_def
  digits_value_def hexval_def escape_char_def is_high_surrogate_def is_low_surrogate_def
  join_surrogates_def Let_def dict_update_def

lemmas ev_stage = item_text_def make_prompt_def timed_inference_def parsed_get_def
  parsed_label_def force_label_def Classifier_item_def Classifier_predict_def Structurer_call_def
  Structurer_item_def Structurer_predict_def scripted_def ascii_lower_def get_def get_default_def
  py_or_def round2_def

lemmas ev_build = select_examples_def py_str_def json_or_str_def wrap_def setdefault_def
  build_def json_dumps_def json_dumps_indent2_def newline_indent_def item_separator_def
  encode_string_def encode_char_def short_escape_def u_escape_def hex_digit_def str_int_def
  get_def get_default_def py_or_def Classifier_init_def Structurer_init_def classify_def

section \<open>Dictionaries\<close>

lemma dict_get_dict_set:
  "dict_get (dict_set d k v) k' = (if k' = k then Some v else dict_get d k')"
  by (induction d) auto

lemma get_dict_set: "get (dict_set d k v) k' = (if k' = k then v else get d k')"
  by (simp add: get_def dict_get_dict_set)

lemma dict_update_Nil: "dict_update d [] = d"
  by (simp add: dict_update_def)

lemma dict_update_Cons: "dict_update d ((k, v) # e) = dict_update (dict_set d k v) e"
  by (simp add: dict_update_def)

lemma dict_get_dict_update_other:
  "k \<notin> fst ` set e \<Longrightarrow> dict_get (dict_update d e) k = dict_get d k"
  by (induction e arbitrary: d) (auto simp: dict_update_Nil dict_update_Cons dict_get_dict_set)

section \<open>The classification stage\<close>

lemma force_label_cases: "force_label l = py ''relevant'' \<or> force_label l = py ''irrelevant''"
  by (simp add: force_label_def)

lemma Classifier_item_record:
  assumes "Classifier_item rt bp item s = (Inr (r, l), s')"
  shows "get r (py ''classification'') = PStr l"
    and "l = py ''relevant'' \<or> l = py ''irrelevant''"
    and "k \<notin> {py ''classification'', py ''raw_output'', py ''prompt'', py ''duration''}
           \<Longrightarrow> dict_get r k = dict_get item k"
    and "\<exists>t. item_text r = Inr t"
proof -
  obtain tx where t: "item_text item = Inr tx"
    using assms by (cases "item_text item") (simp_all add: Classifier_item_def)
  obtain res s1 where ti: "timed_inference rt (make_prompt bp tx) s = (res, s1)"
    by (cases "timed_inference rt (make_prompt bp tx) s") blast
  define raw where "raw = (case res of None \<Rightarrow> [] | Some (r, el) \<Rightarrow> r)"
  define dur where
    "dur = (case res of None \<Rightarrow> PNone | Some (r, el :: real) \<Rightarrow> PFloat (Finite (round2 el)))"
  obtain lab where pl: "parsed_label rt (extract_json_from_response raw) = Inr lab"
    using assms t ti
    by (cases "parsed_label rt (extract_json_from_response raw)")
       (simp_all add: Classifier_item_def Let_def raw_def)
  from assms t ti pl have
    r: "r = dict_update item
              [(py ''classification'', PStr (force_label lab)), (py ''raw_output'', PStr raw),
               (py ''prompt'', PStr (make_prompt bp tx)), (py ''duration'', dur)]" and
    l: "l = force_label lab"
    by (auto simp: Classifier_item_def Let_def raw_def dur_def)
  have neq: "py ''classification'' \<noteq> py ''raw_output''" "py ''classification'' \<noteq> py ''prompt''"
    "py ''classification'' \<noteq> py ''duration''"
    by (simp_all add: py_def)
  show "get r (py ''classification'') = PStr l"
    using neq by (simp add: r l dict_update_Cons dict_update_Nil get_dict_set)
  show "l = py ''relevant'' \<or> l = py ''irrelevant''"
    using force_label_cases [of lab] by (simp add: l)
  show "dict_get r k = dict_get item k"
    if "k \<notin> {py ''classification'', py ''raw_output'', py ''prompt'', py ''duration''}"
    using that by (simp add: r dict_get_dict_update_other)
  have "dict_get r (py ''Text'') = dict_get item (py ''Text'')"
    "dict_get r (py ''text'') = dict_get item (py ''text'')"
    by (simp_all add: r dict_get_dict_update_other py_def)
  then have "item_text r = item_text item"
    by (simp add: item_text_def get_def)
  with t show "\<exists>t. item_text r = Inr t" by simp
qed

lemma Classifier_loop_props:
  assumes "Classifier_loop rt bp ds full rel s = (Inr (full', rel', bp'), s')"
    and "rel = filter is_relevant full"
  shows "rel' = filter is_relevant full' \<and> length full' = length full + length ds
         \<and> take (length full) full' = full \<and> bp' = bp
         \<and> (\<forall>i<length ds. \<exists>l si si'.
               Classifier_item rt bp (ds ! i) si = (Inr (full' ! (length full + i), l), si'))"
  using assms
proof (induction ds arbitrary: full rel s)
  case Nil
  then show ?case by auto
next
  case (Cons item ds)
  obtain x s1 where cx: "Classifier_item rt bp item s = (x, s1)"
    by (cases "Classifier_item rt bp item s") blast
  with Cons.prems(1) obtain r l where x: "x = Inr (r, l)"
    by (cases x) auto
  from cx x have it: "Classifier_item rt bp item s = (Inr (r, l), s1)" by simp
  with Cons.prems(1) have
    rest: "Classifier_loop rt bp ds (full @ [r])
             (if l = py ''relevant'' then rel @ [r] else rel) s1 = (Inr (full', rel', bp'), s')"
    by simp
  have rl: "is_relevant r \<longleftrightarrow> l = py ''relevant''"
    using Classifier_item_record(1) [OF it] by (simp add: is_relevant_def)
  have f: "(if l = py ''relevant'' then rel @ [r] else rel) = filter is_relevant (full @ [r])"
    using rl Cons.prems(2) by simp
  note IH = Cons.IH [OF rest f]
  from IH have len: "length full' = length full + length (item # ds)" by simp
  from IH have tk: "take (Suc (length full)) full' = full @ [r]" by simp
  have "take (length full) (take (Suc (length full)) full') = take (length full) full'"
    by simp
  with tk have tk': "take (length full) full' = full" by simp
  have r0: "full' ! length full = r"
  proof -
    have "full' ! length full = take (Suc (length full)) full' ! length full" by simp
    then show ?thesis by (simp add: tk)
  qed
  have items: "\<exists>l si si'. Classifier_item rt bp ((item # ds) ! i) si
                   = (Inr (full' ! (length full + i), l), si')" if "i < length (item # ds)" for i
  proof (cases i)
    case 0
    with it r0 show ?thesis by auto
  next
    case (Suc j)
    with that have "j < length ds" by simp
    with IH obtain l' si si' where
      "Classifier_item rt bp (ds ! j) si = (Inr (full' ! (length (full @ [r]) + j), l'), si')"
      by blast
    with Suc show ?thesis by auto
  qed
  from IH len tk' items show ?case by blast
qed


section \<open>The extraction stage\<close>



lemma Structurer_loop_items:
  assumes "Structurer_loop rt bp ds acc s = (Inr (results, bp'), s')"
  shows "length results = length acc + length ds \<and> take (length acc) results = acc
         \<and> (\<forall>i<length ds. \<exists>si si'.
               Structurer_item rt bp (ds ! i) si = (Inr (results ! (length acc + i)), si'))"
  using assms
proof (induction ds arbitrary: acc s)
  case Nil
  then show ?case by auto
next
  case (Cons item ds)
  obtain x s1 where cx: "Structurer_item rt bp item s = (x, s1)"
    by (cases "Structurer_item rt bp item s") blast
  with Cons.prems obtain r where x: "x = Inr r"
    by (cases x) auto
  from cx x have it: "Structurer_item rt bp item s = (Inr r, s1)" by simp
  with Cons.prems have
    rest: "Structurer_loop rt bp ds (acc @ [r]) s1 = (Inr (results, bp'), s')"
    by simp
  note IH = Cons.IH [OF rest]
  from IH have len: "length results = length acc + length (item # ds)" by simp
  from IH have tk: "take (Suc (length acc)) results = acc @ [r]" by simp
  have "take (length acc) (take (Suc (length acc)) results) = take (length acc) results"
    by simp
  with tk have tk': "take (length acc) results = acc" by simp
  have "results ! length acc = take (Suc (length acc)) results ! length acc" by simp
  with tk have r0: "results ! length acc = r" by simp
  have items: "\<exists>si si'. Structurer_item rt bp ((item # ds) ! i) si
                   = (Inr (results ! (length acc + i)), si')" if "i < length (item # ds)" for i
  proof (cases i)
    case 0
    with it r0 show ?thesis by auto
  next
    case (Suc j)
    with that have "j < length ds" by simp
    with IH obtain si si' where
      "Structurer_item rt bp (ds ! j) si = (Inr (results ! (length (acc @ [r]) + j)), si')"
      by blast
    with Suc show ?thesis by auto
  qed
  from len tk' items show ?case by blast
qed

lemma Structurer_item_duration:
  assumes "Structurer_item rt bp item s = (Inr r, s')"
    and "get item (py ''duration'') = PFloat (Finite u)"
  shows "\<exists>tx res s1. item_text item = Inr tx
           \<and> timed_inference rt (make_prompt bp tx) s = (res, s1)
           \<and> get r (py ''duration'')
               = (case res of None \<Rightarrow> PNone
                  | Some (raw, el) \<Rightarrow> PFloat (Finite (round2 (el + u))))"
proof -
  obtain tx where t: "item_text item = Inr tx"
    using assms(1) by (cases "item_text item") (simp_all add: Structurer_item_def)
  obtain res s1 where ti: "timed_inference rt (make_prompt bp tx) s = (res, s1)"
    by (cases "timed_inference rt (make_prompt bp tx) s") blast
  obtain raw dur s2 where c: "Structurer_call rt (make_prompt bp tx) item s = ((raw, dur), s2)"
    by (cases "Structurer_call rt (make_prompt bp tx) item s") auto
  from assms(1) t c have r: "get r (py ''duration'') = dur"
    by (auto simp: Structurer_item_def Let_def dict_update_Cons dict_update_Nil get_dict_set)
  have "dur = (case res of None \<Rightarrow> PNone
               | Some (raw, el) \<Rightarrow> PFloat (Finite (round2 (el + u))))"
    using c ti assms(2) by (auto simp: Structurer_call_def split: option.splits)
  with t ti r show ?thesis by blast
qed

section \<open>Claims about the two stages\<close>

text \<open>
  Claim C3.  The claim: every Classification Record carries the label \<^verbatim>\<open>relevant\<close> or
  \<^verbatim>\<open>irrelevant\<close>, and any other parsed label value is forced to \<^verbatim>\<open>irrelevant\<close>.  The source
  calls \<^verbatim>\<open>.lower()\<close> on whatever \<^verbatim>\<open>parsed.get("classification")\<close> holds, outside the \<^verbatim>\<open>try\<close>
  block: when the model answers \<^verbatim>\<open>{"classification": 1}\<close> the label is the integer 1, the call
  raises \<^verbatim>\<open>AttributeError\<close> and \<^verbatim>\<open>predict\<close> returns no record at all, for this paragraph or any
  other of the batch.
\<close>

theorem Classifier_predict_raises_on_number_label:
  "Classifier_predict scripted (py ''B'') [[(py ''Text'', PStr (py ''p''))]]
     ([(Some (py ''{\"classification\": 1}''), 2)], 0)
   = (Inl AttributeError, ([], 2))"
  by (simp add: ev ev_stage)

text \<open>
  What does hold: whenever \<^verbatim>\<open>predict\<close> returns, every record of the full list carries one of
  the two labels.
\<close>

lemma Classifier_predict_labels:
  assumes "Classifier_predict rt bp ds s = (Inr (full, relevant, bp'), s')"
    and "r \<in> set full"
  shows "get r (py ''classification'') = PStr (py ''relevant'')
         \<or> get r (py ''classification'') = PStr (py ''irrelevant'')"
proof -
  from assms(1) have run: "Classifier_loop rt bp ds [] [] s = (Inr (full, relevant, bp'), s')"
    by (simp add: Classifier_predict_def)
  from Classifier_loop_props [OF run] have
    len: "length full = length ds" and
    items: "\<forall>i<length ds. \<exists>l si si'.
              Classifier_item rt bp (ds ! i) si = (Inr (full ! i, l), si')"
    by simp_all
  from assms(2) obtain i where i: "i < length full" "full ! i = r"
    by (auto simp: in_set_conv_nth)
  with len items obtain l si si' where
    "Classifier_item rt bp (ds ! i) si = (Inr (r, l), si')" by auto
  from Classifier_item_record(1,2) [OF this] show ?thesis by auto
qed

text \<open>
  Claim C4.  Whenever \<^verbatim>\<open>Classifier.predict\<close> returns, the relevant list is the sublist of the
  full list whose records are labelled \<^verbatim>\<open>relevant\<close>, in the same order; the full list is as
  long as the input, and its \<open>i\<close>-th record is the \<open>i\<close>-th paragraph with the four fields of the
  stage set (every other key is as in the paragraph).
\<close>

theorem Classifier_predict_relevant_sublist:
  assumes "Classifier_predict rt bp ds s = (Inr (full, relevant, bp'), s')"
  shows "relevant = filter is_relevant full \<and> length full = length ds
         \<and> (\<forall>i<length ds. \<forall>k.
               k \<notin> {py ''classification'', py ''raw_output'', py ''prompt'', py ''duration''}
               \<longrightarrow> dict_get (full ! i) k = dict_get (ds ! i) k)"
proof -
  from assms have run: "Classifier_loop rt bp ds [] [] s = (Inr (full, relevant, bp'), s')"
    by (simp add: Classifier_predict_def)
  from Classifier_loop_props [OF run] have
    rel: "relevant = filter is_relevant full" and
    len: "length full = length ds" and
    items: "\<forall>i<length ds. \<exists>l si si'.
              Classifier_item rt bp (ds ! i) si = (Inr (full ! i, l), si')"
    by simp_all
  have "dict_get (full ! i) k = dict_get (ds ! i) k"
    if "i < length ds"
      and "k \<notin> {py ''classification'', py ''raw_output'', py ''prompt'', py ''duration''}"
    for i k
  proof -
    from items that(1) obtain l si si' where
      "Classifier_item rt bp (ds ! i) si = (Inr (full ! i, l), si')" by blast
    from Classifier_item_record(3) [OF this that(2)] show ?thesis .
  qed
  with rel len show ?thesis by blast
qed

lemma demo_classification:
  "Classifier_predict scripted (py ''B'') demo_dataset demo_script
   = (Inr ([demo_relevant, demo_irrelevant], [demo_relevant], py ''B''), ([], 3))"
  by (simp add: ev ev_stage demo_dataset_def demo_script_def demo_relevant_def
      demo_irrelevant_def)

theorem Classifier_predict_relevant_sublist_witness:
  "Classifier_predict scripted (py ''B'') demo_dataset demo_script
     = (Inr ([demo_relevant, demo_irrelevant], [demo_relevant], py ''B''), ([], 3))
   \<and> [demo_relevant] = filter is_relevant [demo_relevant, demo_irrelevant]
   \<and> length [demo_relevant, demo_irrelevant] = length demo_dataset
   \<and> dict_get ([demo_relevant, demo_irrelevant] ! 0) (py ''Text'')
       = dict_get (demo_dataset ! 0) (py ''Text'')"
proof -
  note run = demo_classification
  from Classifier_predict_relevant_sublist [OF run] have
    "[demo_relevant] = filter is_relevant [demo_relevant, demo_irrelevant]"
    "length [demo_relevant, demo_irrelevant] = length demo_dataset"
    "\<forall>i<length demo_dataset. \<forall>k.
        k \<notin> {py ''classification'', py ''raw_output'', py ''prompt'', py ''duration''}
        \<longrightarrow> dict_get ([demo_relevant, demo_irrelevant] ! i) k = dict_get (demo_dataset ! i) k"
    by blast+
  moreover have "0 < length demo_dataset" by (simp add: demo_dataset_def)
  moreover have
    "py ''Text'' \<notin> {py ''classification'', py ''raw_output'', py ''prompt'', py ''duration''}"
    by (simp add: py_def)
  ultimately show ?thesis using run by blast
qed


lemma demo_extraction:
  "Structurer_predict scripted (py ''B'') [demo_relevant] ([(None, 1)], 0)
   = (Inr ([dict_update demo_relevant
              [(py ''data'', no_valid_json), (py ''raw_output'', PStr []),
               (py ''prompt'', PStr (py ''B'' @ [NEWLINE, NEWLINE] @ py ''\"text\": \"p\"'')),
               (py ''duration'', PNone)]], py ''B''), ([], 1))"
  by (simp add: ev ev_stage demo_relevant_def)


text \<open>
  Claim C6, as stated, fails: an item whose call of the model raises is stored with the
  duration null, whatever its upstream duration; here the upstream duration is 2.
\<close>

theorem failed_call_stores_no_cumulative_duration:
  "get demo_relevant (py ''duration'') = PFloat (Finite 2)
   \<and> Structurer_predict scripted (py ''B'') [demo_relevant] ([(None, 1)], 0)
       = (Inr ([dict_update demo_relevant
                  [(py ''data'', no_valid_json), (py ''raw_output'', PStr []),
                   (py ''prompt'', PStr (py ''B'' @ [NEWLINE, NEWLINE] @ py ''\"text\": \"p\"'')),
                   (py ''duration'', PNone)]], py ''B''), ([], 1))
   \<and> get (dict_update demo_relevant
             [(py ''data'', no_valid_json), (py ''raw_output'', PStr []),
              (py ''prompt'', PStr (py ''B'' @ [NEWLINE, NEWLINE] @ py ''\"text\": \"p\"'')),
              (py ''duration'', PNone)]) (py ''duration'') = PNone"
  by (simp add: ev ev_stage demo_relevant_def)

text \<open>
  Claim C6, amended.  For the \<open>i\<close>-th item that \<^verbatim>\<open>Structurer.predict\<close> processes, with an
  upstream duration that is a number \<open>u\<close>: when this stage's call of the model on the item's
  prompt returns after \<open>el\<close> seconds, the stored duration is the cumulative latency \<open>el + u\<close>,
  rounded to two decimals; when the call raises, the stored duration is null.
\<close>

theorem Structurer_predict_duration_cumulative:
  assumes "Structurer_predict rt bp ds s = (Inr (results, bp'), s')"
    and "i < length ds"
    and "get (ds ! i) (py ''duration'') = PFloat (Finite u)"
  shows "\<exists>si tx res s1. item_text (ds ! i) = Inr tx
           \<and> timed_inference rt (make_prompt bp tx) si = (res, s1)
           \<and> get (results ! i) (py ''duration'')
               = (case res of None \<Rightarrow> PNone
                  | Some (raw, el) \<Rightarrow> PFloat (Finite (round2 (el + u))))"
proof -
  from assms(1) have "Structurer_loop rt bp ds [] s = (Inr (results, bp'), s')"
    by (simp add: Structurer_predict_def)
  from Structurer_loop_items [OF this] assms(2) obtain si si' where
    "Structurer_item rt bp (ds ! i) si = (Inr (results ! i), si')" by auto
  from Structurer_item_duration [OF this assms(3)] show ?thesis by blast
qed

text \<open>
  A run over two items: the first has the upstream duration 2 and its call returns after 1.5
  seconds; the second has a null upstream duration, so that the addition raises inside the
  \<^verbatim>\<open>try\<close> block and the answer of the model is dropped with it.
\<close>

lemma demo_extraction_durations:
  "Structurer_predict scripted (py ''B'') [demo_relevant, demo_irrelevant]
     ([(Some (py ''{\"a\": 1}''), 1.5), (Some (py ''{\"b\": 2}''), 1)], 0)
   = (Inr ([dict_update demo_relevant
              [(py ''data'', PDict [(py ''a'', PInt 1)]),
               (py ''raw_output'', PStr (py ''{\"a\": 1}'')),
               (py ''prompt'', PStr (py ''B'' @ [NEWLINE, NEWLINE] @ py ''\"text\": \"p\"'')),
               (py ''duration'', PFloat (Finite 3.5))],
            dict_update demo_irrelevant
              [(py ''data'', no_valid_json), (py ''raw_output'', PStr []),
               (py ''prompt'', PStr (py ''B'' @ [NEWLINE, NEWLINE] @ py ''\"text\": \"q\"'')),
               (py ''duration'', PNone)]], py ''B''), ([], 2.5))"
  by (simp add: ev ev_stage demo_relevant_def demo_irrelevant_def)

theorem Structurer_predict_duration_cumulative_witness:
  "(0::nat) < length [demo_relevant, demo_irrelevant]
   \<and> get ([demo_relevant, demo_irrelevant] ! 0) (py ''duration'') = PFloat (Finite 2)
   \<and> (\<exists>results s' si tx res s1.
        Structurer_predict scripted (py ''B'') [demo_relevant, demo_irrelevant]
          ([(Some (py ''{\"a\": 1}''), 1.5), (Some (py ''{\"b\": 2}''), 1)], 0)
          = (Inr (results, py ''B''), s')
        \<and> item_text ([demo_relevant, demo_irrelevant] ! 0) = Inr tx
        \<and> timed_inference scripted (make_prompt (py ''B'') tx) si = (res, s1)
        \<and> get (results ! 0) (py ''duration'')
            = (case res of None \<Rightarrow> PNone
               | Some (raw, el) \<Rightarrow> PFloat (Finite (round2 (el + 2)))))"
proof -
  note run = demo_extraction_durations
  have i: "(0::nat) < length [demo_relevant, demo_irrelevant]" by simp
  have d: "get ([demo_relevant, demo_irrelevant] ! 0) (py ''duration'') = PFloat (Finite 2)"
    by (simp add: demo_relevant_def get_def py_def)
  from Structurer_predict_duration_cumulative [OF run i d] run i d
  show ?thesis by blast
qed

section \<open>Claims about the prompt builder\<close>

text \<open>
  Claim C1.  The claim: for a schema with a non-empty \<^verbatim>\<open>EXAMPLE\<close> field the zero-shot prompt
  never contains \<^verbatim>\<open>Examples:\<close>, for any template order.  \<^verbatim>\<open>ZeroShot.placeholder_values\<close>
  leaves \<^verbatim>\<open>EXAMPLE\<close> out (``intentionally omitted in zero-shot''), but \<^verbatim>\<open>Prompter.build\<close>
  falls back to the schema for every placeholder the strategy does not supply
  (\<^verbatim>\<open>values.get(key) or self._ph.get(key)\<close>): with a template that lists \<^verbatim>\<open>EXAMPLE\<close> the examples
  of the schema are printed under the header \<^verbatim>\<open>Examples:\<close>.
\<close>

theorem zero_shot_prompt_leaks_examples:
  "build repr_unused ZeroShot schema_with_example full_order
     = Inr (py ''P'' @ [NEWLINE, NEWLINE] @ py ''Examples:'' @ [NEWLINE]
            @ py ''['' @ [NEWLINE]
            @ py ''  {'' @ [NEWLINE]
            @ py ''    \"text\": \"t\",'' @ [NEWLINE]
            @ py ''    \"classification\": \"relevant\"'' @ [NEWLINE]
            @ py ''  }'' @ [NEWLINE]
            @ py '']'')
   \<and> contains (py ''P'' @ [NEWLINE, NEWLINE] @ py ''Examples:'' @ [NEWLINE]
            @ py ''['' @ [NEWLINE]
            @ py ''  {'' @ [NEWLINE]
            @ py ''    \"text\": \"t\",'' @ [NEWLINE]
            @ py ''    \"classification\": \"relevant\"'' @ [NEWLINE]
            @ py ''  }'' @ [NEWLINE]
            @ py '']'') (py ''Examples:'')"
  by (simp add: ev ev_build eval_nat_numeral schema_with_example_def full_order_def)

text \<open>
  Claim C2.  A schema that holds nothing true (for a schema whose example fields are arrays:
  no non-empty array) under \<^verbatim>\<open>EXAMPLES\<close>, \<^verbatim>\<open>examples\<close>, \<^verbatim>\<open>EXAMPLE\<close> and \<^verbatim>\<open>example\<close> makes the
  few-shot \<^verbatim>\<open>build\<close> raise the error of \<^verbatim>\<open>_select_examples\<close> (a \<^verbatim>\<open>ValueError\<close>) instead of
  returning a prompt.  The constructors of both stages call \<^verbatim>\<open>build\<close>, so the error leaves the
  constructor: \<^verbatim>\<open>predict\<close> is never entered, the model is not called and the clock is not read
  (the state is untouched).
\<close>

theorem few_shot_without_examples_raises:
  assumes "no_examples ph"
  shows "build repr FewShot ph order = Inl ValueError
         \<and> Classifier_init repr FewShot ph order = Inl ValueError
         \<and> Structurer_init repr FewShot ph order = Inl ValueError
         \<and> classify rt repr FewShot ph order dataset s = (Inl ValueError, s)"
proof -
  from assms have "select_examples ph = Inl ValueError"
    by (simp add: select_examples_def no_examples_def py_or_def)
  then have "build repr FewShot ph order = Inl ValueError"
    by (simp add: build_def)
  then show ?thesis
    by (simp add: Classifier_init_def Structurer_init_def classify_def)
qed

theorem few_shot_without_examples_raises_witness:
  "no_examples schema_without_examples
   \<and> build repr_unused FewShot schema_without_examples full_order = Inl ValueError
   \<and> Classifier_init repr_unused FewShot schema_without_examples full_order = Inl ValueError
   \<and> Structurer_init repr_unused FewShot schema_without_examples full_order = Inl ValueError
   \<and> classify scripted repr_unused FewShot schema_without_examples full_order
       demo_dataset demo_script = (Inl ValueError, demo_script)"
proof -
  have h: "no_examples schema_without_examples"
    by (simp add: no_examples_def schema_without_examples_def get_def py_def)
  from few_shot_without_examples_raises
         [OF h, where repr = repr_unused and order = full_order and rt = scripted
            and dataset = demo_dataset and s = demo_script] h
  show ?thesis by simp
qed

text \<open>With examples in the schema the few-shot prompt is built and ends with them.\<close>

lemma few_shot_with_examples_builds:
  "build repr_unused FewShot schema_with_example [py ''PERSONA'', py ''EXAMPLE'']
     = Inr (py ''P'' @ [NEWLINE, NEWLINE] @ py ''Examples:'' @ [NEWLINE]
            @ py ''['' @ [NEWLINE]
            @ py ''  {'' @ [NEWLINE]
            @ py ''    \"text\": \"t\",'' @ [NEWLINE]
            @ py ''    \"classification\": \"relevant\"'' @ [NEWLINE]
            @ py ''  }'' @ [NEWLINE]
            @ py '']'')"
  by (simp add: ev ev_build eval_nat_numeral schema_with_example_def)

section \<open>Claims about the extractor, settled by evaluation\<close>

text \<open>
  Claim C7, as stated, fails: the text \<^verbatim>\<open>```{x}``` {"a": 1}\<close> has a fenced block that does not
  parse and a bare object that does; the fence pattern matched, so the brace-counting scan is
  not run (it is the \<^verbatim>\<open>else\<close> branch of \<^verbatim>\<open>if markdown_matches\<close>), and the result is the error
  sentinel although the scan would have found the object.
\<close>

theorem malformed_fence_hides_bare_object:
  "findall_markdown fenced_and_bare = [py ''{x}'']
   \<and> markdown_blocks (findall_markdown fenced_and_bare) = []
   \<and> brace_scan fenced_and_bare 0 fenced_and_bare 0 None [] = [PDict [(py ''a'', PInt 1)]]
   \<and> extract_json_from_response fenced_and_bare = no_valid_json
   \<and> extract_json_from_response fenced_and_bare \<noteq> PDict [(py ''a'', PInt 1)]"
  by (simp add: ev fenced_and_bare_def)

text \<open>
  Claim C7, amended.  The brace-counting scan runs exactly when the fence pattern matches
  nothing.  When a fenced block is matched and none parses, the scan is skipped and the result
  is that of the implicit-object wrap (or the sentinel); when nothing is matched, the blocks of
  the scan determine the result, and the wrap is tried only if there are none.
\<close>

theorem brace_scan_runs_only_without_fenced_match:
  "(findall_markdown t \<noteq> [] \<and> markdown_blocks (findall_markdown t) = []
      \<longrightarrow> extract_json_from_response t = implicit_wrap t)
   \<and> (findall_markdown t = [] \<and> brace_scan t 0 t 0 None [] = [b]
      \<longrightarrow> extract_json_from_response t = b)
   \<and> (findall_markdown t = [] \<and> brace_scan t 0 t 0 None [] = []
      \<longrightarrow> extract_json_from_response t = implicit_wrap t)"
  by (simp add: extract_json_from_response_def Let_def)

theorem brace_scan_runs_only_without_fenced_match_witness:
  "(findall_markdown fenced_and_bare \<noteq> []
      \<and> markdown_blocks (findall_markdown fenced_and_bare) = []
      \<and> extract_json_from_response fenced_and_bare = implicit_wrap fenced_and_bare)
   \<and> (findall_markdown (py ''so {\"a\": 1}'') = []
      \<and> brace_scan (py ''so {\"a\": 1}'') 0 (py ''so {\"a\": 1}'') 0 None []
           = [PDict [(py ''a'', PInt 1)]]
      \<and> extract_json_from_response (py ''so {\"a\": 1}'') = PDict [(py ''a'', PInt 1)])
   \<and> (findall_markdown (py ''not json at all'') = []
      \<and> brace_scan (py ''not json at all'') 0 (py ''not json at all'') 0 None [] = []
      \<and> extract_json_from_response (py ''not json at all'')
           = implicit_wrap (py ''not json at all''))"
proof -
  have a: "findall_markdown fenced_and_bare \<noteq> []
           \<and> markdown_blocks (findall_markdown fenced_and_bare) = []"
    by (simp add: ev fenced_and_bare_def)
  have b: "findall_markdown (py ''so {\"a\": 1}'') = []
           \<and> brace_scan (py ''so {\"a\": 1}'') 0 (py ''so {\"a\": 1}'') 0 None []
                = [PDict [(py ''a'', PInt 1)]]"
    by (simp add: ev)
  have c: "findall_markdown (py ''not json at all'') = []
           \<and> brace_scan (py ''not json at all'') 0 (py ''not json at all'') 0 None [] = []"
    by (simp add: ev)
  from a b c
    brace_scan_runs_only_without_fenced_match [of fenced_and_bare]
    brace_scan_runs_only_without_fenced_match [of "py ''so {\"a\": 1}''" "PDict [(py ''a'', PInt 1)]"]
    brace_scan_runs_only_without_fenced_match [of "py ''not json at all''"]
  show ?thesis by blast
qed

text \<open>
  Claim C8, as stated, fails: on the two lines \<^verbatim>\<open>key1: "a"\<close> and \<^verbatim>\<open>key2: "b"\<close> the extractor
  does not return the object with the two keys.
\<close>

theorem scenario_B_is_not_recovered:
  "extract_json_from_response scenario_B
   \<noteq> PDict [(py ''key1'', PStr (py ''a'')), (py ''key2'', PStr (py ''b''))]"
  by (simp add: ev scenario_B_def)

text \<open>
  Claim C8, amended.  On that text the first two tiers find nothing; the third wraps the text
  in braces and applies the repair steps, which yield \<^verbatim>\<open>{key1: "a" key2: "b"}\<close> (the line break
  has become a space before the comma insertion looks for lines, and no step quotes the keys);
  \<^verbatim>\<open>json.loads\<close> rejects it, and the result is the error sentinel.
\<close>

theorem scenario_B_returns_sentinel:
  "findall_markdown scenario_B = []
   \<and> brace_scan scenario_B 0 scenario_B 0 None [] = []
   \<and> repair ([LBRACE] @ strip scenario_B @ [RBRACE]) = py ''{key1: \"a\" key2: \"b\"}''
   \<and> json_loads (py ''{key1: \"a\" key2: \"b\"}'') = None
   \<and> extract_json_from_response scenario_B = no_valid_json"
  by (simp add: ev scenario_B_def)

section \<open>The extractor returns a dict\<close>

lemma parse_members_dict:
  "parse_members n acc s = Some (v, r) \<Longrightarrow> is_dict v"
proof (induction n arbitrary: acc s)
  case 0
  then show ?case by simp
next
  case (Suc n)
  then show ?case
    by (auto split: list.splits if_splits option.splits prod.splits)
qed

lemma json_loads_dict:
  assumes "json_loads s = Some v" and "opens_brace s"
  shows "is_dict v"
proof -
  from assms(2) obtain cs where s: "s = LBRACE # cs" by (auto simp: opens_brace_def)
  have sk: "skip_ws s = s" by (simp add: s skip_ws_def json_ws_def)
  from assms(1) obtain r where p: "parse_value (Suc (length s)) s = Some (v, r)"
    by (auto simp: json_loads_def sk split: if_splits option.splits prod.splits)
  show ?thesis
  proof (cases "startswith (skip_ws cs) [RBRACE]")
    case True
    with p show ?thesis by (auto simp: s)
  next
    case False
    with p have "parse_members (length s) [] (skip_ws cs) = Some (v, r)" by (simp add: s)
    then show ?thesis by (rule parse_members_dict)
  qed
qed

lemma sub_runs_opens: "\<not> P LBRACE \<Longrightarrow> opens_brace s \<Longrightarrow> opens_brace (sub_runs P b s)"
  by (auto simp: opens_brace_def)

lemma sub_runs_chars: "c \<in> set (sub_runs P b s) \<Longrightarrow> \<not> P c \<or> c = SPACE"
  by (induction P b s rule: sub_runs.induct) (auto split: if_splits)

lemma splitlines_from_no_break:
  "\<forall>c \<in> set s. \<not> is_linebreak c \<Longrightarrow>
   splitlines_from cur s = (if cur @ s = [] then [] else [cur @ s])"
proof (induction cur s rule: splitlines_from.induct)
  case (3 cur c d cs)
  have "is_linebreak 13" by (simp add: is_linebreak_def)
  with 3 show ?case by auto
qed auto

lemma fix_missing_commas_no_break:
  assumes "\<forall>c \<in> set s. \<not> is_linebreak c"
  shows "fix_missing_commas_between_keys s = s"
proof (cases "s = []")
  case True
  then show ?thesis by (simp add: fix_missing_commas_between_keys_def splitlines_def)
next
  case False
  with assms have "splitlines s = [s]"
    by (simp add: splitlines_def splitlines_from_no_break)
  then show ?thesis by (simp add: fix_missing_commas_between_keys_def)
qed

lemma linebreak_isspace: "is_linebreak c \<Longrightarrow> isspace c"
  by (auto simp: is_linebreak_def isspace_def)

lemma clean_trailing_commas_opens:
  "opens_brace s \<Longrightarrow> opens_brace (clean_trailing_commas s)"
  by (auto simp: opens_brace_def)

lemma fix_missing_braces_opens: "opens_brace s \<Longrightarrow> opens_brace (fix_missing_braces s)"
  by (auto simp: opens_brace_def fix_missing_braces_def Let_def)

lemma repair_opens:
  assumes "opens_brace s"
  shows "opens_brace (repair s)"
proof -
  let ?c2 = "sub_runs isspace False (sub_runs is_nrt False s)"
  let ?c3 = "replace_char 8221 QUOTE (replace_char 8220 QUOTE ?c2)"
  have o2: "opens_brace ?c2"
    using assms by (intro sub_runs_opens) (simp_all add: isspace_def is_nrt_def)
  then have o3: "opens_brace ?c3"
    by (auto simp: opens_brace_def replace_char_def)
  have "\<not> is_linebreak c" if "c \<in> set ?c3" for c
  proof -
    from that have "c = QUOTE \<or> c \<in> set ?c2"
      by (auto simp: replace_char_def split: if_splits)
    then show ?thesis
    proof
      assume "c = QUOTE"
      then show ?thesis by (simp add: is_linebreak_def)
    next
      assume "c \<in> set ?c2"
      from sub_runs_chars [OF this] show ?thesis
        using linebreak_isspace [of c] by (auto simp: is_linebreak_def)
    qed
  qed
  then have "fix_missing_commas_between_keys ?c3 = ?c3"
    by (intro fix_missing_commas_no_break) blast
  with o3 show ?thesis
    by (simp add: repair_def Let_def clean_trailing_commas_opens fix_missing_braces_opens)
qed

lemma strip_opens:
  assumes "opens_brace s"
  shows "opens_brace (strip s)"
proof -
  from assms obtain r where s: "s = LBRACE # r" by (auto simp: opens_brace_def)
  have n: "\<not> isspace LBRACE" by (simp add: isspace_def)
  then have "lstrip s = s" by (simp add: lstrip_def s)
  moreover have "dropWhile isspace (rev r @ [LBRACE]) = dropWhile isspace (rev r) @ [LBRACE]"
    using n by (simp add: dropWhile_append3)
  ultimately show ?thesis
    by (simp add: strip_def rstrip_def s opens_brace_def)
qed

lemma scan_body_opens:
  "scan_body acc t = Some (g, r) \<Longrightarrow> opens_brace acc \<Longrightarrow> opens_brace g"
proof (induction t arbitrary: acc)
  case Nil
  then show ?case by simp
next
  case (Cons a t)
  show ?case
  proof (cases "a = RBRACE \<and> startswith (dropWhile isspace t) fence")
    case True
    with Cons.prems show ?thesis by (auto simp: opens_brace_def)
  next
    case False
    with Cons.prems have "scan_body (acc @ [a]) t = Some (g, r)" by auto
    moreover from Cons.prems(2) have "opens_brace (acc @ [a])" by (auto simp: opens_brace_def)
    ultimately show ?thesis by (rule Cons.IH)
  qed
qed

lemma match_markdown_opens: "match_markdown s = Some (g, r) \<Longrightarrow> opens_brace g"
  by (auto simp: match_markdown_def Let_def opens_brace_def split: if_splits
      intro: scan_body_opens [unfolded opens_brace_def])

lemma findall_markdown_opens: "g \<in> set (findall_markdown s) \<Longrightarrow> opens_brace g"
proof (induction s rule: findall_markdown.induct)
  case 1
  then show ?case by simp
next
  case (2 c cs)
  show ?case
  proof (cases "match_markdown (c # cs)")
    case None
    with 2 show ?thesis by simp
  next
    case (Some p)
    obtain h r where p: "p = (h, r)" by (cases p)
    with 2 Some show ?thesis
      using match_markdown_opens [of "c # cs" h r] by auto
  qed
qed

lemma markdown_blocks_dicts:
  "\<forall>m \<in> set ms. opens_brace m \<Longrightarrow> list_all is_dict (markdown_blocks ms)"
proof (induction ms)
  case Nil
  then show ?case by simp
next
  case (Cons m ms)
  then have o: "opens_brace (repair (strip m))"
    by (simp add: repair_opens strip_opens)
  show ?case
  proof (cases "json_loads (repair (strip m))")
    case None
    with Cons show ?thesis by simp
  next
    case (Some v)
    from json_loads_dict [OF Some o] Cons Some show ?thesis by simp
  qed
qed

lemma brace_scan_dicts:
  assumes "rest = drop i text"
    and "\<forall>st. json_start = Some st \<longrightarrow> st \<le> i \<and> st < length text \<and> text ! st = LBRACE"
    and "list_all is_dict blocks"
  shows "list_all is_dict (brace_scan text i rest bc json_start blocks)"
  using assms
proof (induction rest arbitrary: i bc json_start blocks)
  case Nil
  then show ?case by simp
next
  case (Cons char rest)
  from Cons.prems(1) have i: "i < length text"
    by (metis drop_all linorder_not_less list.distinct(1))
  with Cons.prems(1) have ch: "text ! i = char" and r: "rest = drop (i + 1) text"
    by (metis Cons_nth_drop_Suc list.inject, metis Cons_nth_drop_Suc list.inject Suc_eq_plus1)
  have keep: "\<forall>st. json_start = Some st \<longrightarrow> st \<le> i + 1 \<and> st < length text \<and> text ! st = LBRACE"
    using Cons.prems(2) by auto
  show ?case
  proof (cases "char = LBRACE")
    case True
    have "\<forall>st. (if bc = 0 then Some i else json_start) = Some st
            \<longrightarrow> st \<le> i + 1 \<and> st < length text \<and> text ! st = LBRACE"
      using keep i ch True by auto
    from Cons.IH [OF r this Cons.prems(3)] True show ?thesis by simp
  next
    case False
    show ?thesis
    proof (cases "char = RBRACE")
      case notclose: False
      from Cons.IH [OF r keep Cons.prems(3)] False notclose show ?thesis by simp
    next
      case True
      show ?thesis
      proof (cases json_start)
        case None
        have "\<forall>st. (None :: nat option) = Some st
                \<longrightarrow> st \<le> i + 1 \<and> st < length text \<and> text ! st = LBRACE" by simp
        from Cons.IH [OF r this Cons.prems(3)] True None show ?thesis by simp
      next
        case (Some st)
        note js = Some
        with Cons.prems(2) have st: "st \<le> i" "st < length text" "text ! st = LBRACE" by auto
        show ?thesis
        proof (cases "bc - 1 = 0")
          case nz: False
          from Cons.IH [OF r keep Cons.prems(3)] True js nz show ?thesis by simp
        next
          case z: True
          let ?blk = "take (i + 1 - st) (drop st text)"
          have "drop st text = text ! st # drop (Suc st) text"
            using st(2) by (simp add: Cons_nth_drop_Suc)
          moreover obtain k where "i + 1 - st = Suc k" using st(1) by (cases "i + 1 - st") auto
          ultimately have "opens_brace ?blk" by (simp add: opens_brace_def st(3))
          then have o: "opens_brace (repair ?blk)" by (rule repair_opens)
          show ?thesis
          proof (cases "json_loads (repair ?blk)")
            case None
            from Cons.IH [OF r keep Cons.prems(3)] True js z None show ?thesis by simp
          next
            case (Some v)
            note jl = Some
            from json_loads_dict [OF jl o] Cons.prems(3)
            have "list_all is_dict (blocks @ [v])" by simp
            moreover have "\<forall>st. (None :: nat option) = Some st
                \<longrightarrow> st \<le> i + 1 \<and> st < length text \<and> text ! st = LBRACE" by simp
            ultimately show ?thesis
              using Cons.IH [OF r, of None "blocks @ [v]" "bc - 1"] True js z jl by simp
          qed
        qed
      qed
    qed
  qed
qed

lemma implicit_wrap_dict: "is_dict (implicit_wrap t)"
proof -
  have "opens_brace (repair ([LBRACE] @ strip t @ [RBRACE]))"
    by (rule repair_opens) (simp add: opens_brace_def)
  then have "json_loads (repair ([LBRACE] @ strip t @ [RBRACE])) = Some v \<Longrightarrow> is_dict v" for v
    by (rule json_loads_dict [rotated])
  then show ?thesis
    by (auto simp: implicit_wrap_def Let_def no_valid_json_def split: option.splits)
qed

lemma json_blocks_dicts:
  "list_all is_dict
     (if findall_markdown t \<noteq> [] then markdown_blocks (findall_markdown t)
      else brace_scan t 0 t 0 None [])"
proof (cases "findall_markdown t \<noteq> []")
  case True
  then show ?thesis
    using markdown_blocks_dicts [of "findall_markdown t"] findall_markdown_opens [of _ t]
    by auto
next
  case False
  have "list_all is_dict (brace_scan t 0 t 0 None [])"
    by (rule brace_scan_dicts) simp_all
  with False show ?thesis by simp
qed

lemma extract_is_dict: "is_dict (extract_json_from_response raw)"
proof -
  let ?bs = "if findall_markdown raw \<noteq> [] then markdown_blocks (findall_markdown raw)
             else brace_scan raw 0 raw 0 None []"
  have all: "list_all is_dict ?bs" by (rule json_blocks_dicts)
  show ?thesis
  proof (cases "?bs = []")
    case True
    then show ?thesis
      using implicit_wrap_dict [of raw] by (simp add: extract_json_from_response_def Let_def)
  next
    case False
    then obtain b bs where bs: "?bs = b # bs" by (cases ?bs) auto
    with all have "is_dict b" by simp
    with all bs show ?thesis
      by (simp add: extract_json_from_response_def Let_def)
  qed
qed


section \<open>Re-serialised plain values\<close>

declare dec_nat.simps [simp del]

text \<open>The texts that \<^verbatim>\<open>json.dumps\<close> produces for plain values are put together from these.\<close>

lemma pairs_ok_append:
  "pairs_ok (a @ b) \<longleftrightarrow>
     pairs_ok a \<and> pairs_ok b \<and> (a \<noteq> [] \<and> b \<noteq> [] \<longrightarrow> neighbours (last a) (hd b))"
proof (induction a)
  case Nil
  then show ?case by simp
next
  case (Cons c cs)
  note IH = Cons.IH
  show ?case
  proof (cases cs)
    case Nil
    then show ?thesis by (cases b) auto
  next
    case (Cons d ds)
    with IH show ?thesis by auto
  qed
qed

lemma inner_append:
  "inner d (a @ b) = (case inner d a of None \<Rightarrow> None | Some e \<Rightarrow> inner e b)"
  by (induction a arbitrary: d) auto

lemma inner_no_brace:
  "LBRACE \<notin> set s \<Longrightarrow> RBRACE \<notin> set s \<Longrightarrow> inner d s = Some d"
  by (induction s) auto

lemma chars_ok_append [simp]: "chars_ok (a @ b) \<longleftrightarrow> chars_ok a \<and> chars_ok b"
  by (simp add: chars_ok_def)

lemma chars_ok_Cons [simp]:
  "chars_ok (c # s) \<longleftrightarrow> 32 \<le> c \<and> c \<le> 126 \<and> c \<noteq> BACKTICK \<and> chars_ok s"
  by (simp add: chars_ok_def)

lemma chars_ok_Nil [simp]: "chars_ok []"
  by (simp add: chars_ok_def)

lemma plain_str_chars: "plain_str s \<Longrightarrow> chars_ok s"
  by (auto simp: plain_str_def plain_char_def chars_ok_def list_all_iff)

lemma plain_str_no_brace: "plain_str s \<Longrightarrow> LBRACE \<notin> set s \<and> RBRACE \<notin> set s"
  by (auto simp: plain_str_def plain_char_def list_all_iff)

lemma plain_str_pairs: "plain_str s \<Longrightarrow> pairs_ok s"
proof (induction s rule: pairs_ok.induct)
  case (1 c d cs)
  then show ?case by (auto simp: plain_str_def plain_char_def neighbours_def)
qed simp_all

lemma wellformed_string:
  assumes "plain_str s"
  shows "wellformed_text (QUOTE # s @ [QUOTE])"
proof -
  have c: "chars_ok (QUOTE # s @ [QUOTE])"
    using plain_str_chars [OF assms] by simp
  have e: "neighbours QUOTE x" "neighbours x QUOTE" for x
    by (simp_all add: neighbours_def)
  have p: "pairs_ok (QUOTE # s @ [QUOTE])"
    using plain_str_pairs [OF assms] pairs_ok_append [of "[QUOTE]" "s @ [QUOTE]"]
      pairs_ok_append [of s "[QUOTE]"] e
    by auto
  have s: "solid (QUOTE # s @ [QUOTE])" by (simp add: solid_def)
  have "inner d (QUOTE # s @ [QUOTE]) = Some d" for d
    by (rule inner_no_brace) (use plain_str_no_brace [OF assms] in auto)
  with c p s show ?thesis by (simp add: wellformed_text_def)
qed

lemma wellformed_no_brace:
  assumes "chars_ok s" "pairs_ok s" "solid s" "LBRACE \<notin> set s" "RBRACE \<notin> set s"
  shows "wellformed_text s"
  using assms by (simp add: wellformed_text_def inner_no_brace)

lemma dec_nat_digits: "list_all is_digit (dec_nat n) \<and> dec_nat n \<noteq> []"
proof (induction n rule: dec_nat.induct)
  case (1 n)
  show ?case
  proof (cases "n < 10")
    case True
    then show ?thesis by (subst dec_nat.simps, subst dec_nat.simps) (simp add: is_digit_def)
  next
    case False
    with 1 have "list_all is_digit (dec_nat (n div 10)) \<and> dec_nat (n div 10) \<noteq> []" by simp
    moreover have "is_digit (48 + n mod 10)" by (simp add: is_digit_def)
    ultimately show ?thesis using False
      by (subst dec_nat.simps, subst dec_nat.simps) simp
  qed
qed

lemma digits_text:
  assumes "list_all is_digit s" "s \<noteq> []"
  shows "chars_ok s \<and> pairs_ok s \<and> solid s \<and> LBRACE \<notin> set s \<and> RBRACE \<notin> set s
         \<and> 45 \<notin> set s"
proof -
  have d: "\<forall>c \<in> set s. 48 \<le> c \<and> c \<le> 57"
    using assms(1) by (simp add: list_all_iff is_digit_def)
  then have c: "chars_ok s" by (auto simp: chars_ok_def list_all_iff)
  have p: "pairs_ok s" using d
    by (induction s rule: pairs_ok.induct) (auto simp: neighbours_def)
  from assms(2) d have "hd s \<in> set s" "last s \<in> set s" by simp_all
  with d have "48 \<le> hd s \<and> hd s \<le> 57" "48 \<le> last s \<and> last s \<le> 57" by blast+
  with assms(2) have "solid s" by (auto simp: solid_def)
  with c p d show ?thesis by auto
qed

lemma wellformed_int: "wellformed_text (str_int i)"
proof -
  let ?ds = "dec_nat (nat \<bar>i\<bar>)"
  from digits_text dec_nat_digits have
    t: "chars_ok ?ds" "pairs_ok ?ds" "solid ?ds" "LBRACE \<notin> set ?ds" "RBRACE \<notin> set ?ds"
    by blast+
  show ?thesis
  proof (cases "i < 0")
    case False
    then have "str_int i = ?ds" by (simp add: str_int_def)
    with t show ?thesis by (simp add: wellformed_no_brace)
  next
    case True
    then have s: "str_int i = 45 # ?ds" by (simp add: str_int_def)
    have "pairs_ok ([45] @ ?ds)"
      unfolding pairs_ok_append using t by (simp add: neighbours_def)
    moreover have "solid (45 # ?ds)" using t(3) by (simp add: solid_def)
    ultimately show ?thesis using t
      by (intro wellformed_no_brace) (simp_all add: s)
  qed
qed

lemma wellformed_literals:
  "wellformed_text (py ''null'')" "wellformed_text (py ''true'')" "wellformed_text (py ''false'')"
  by (rule wellformed_no_brace; simp add: py_def solid_def neighbours_def)+

lemma wellformed_separated:
  assumes "wellformed_text a" "wellformed_text b"
  shows "wellformed_text (a @ [COMMA, SPACE] @ b)"
proof -
  from assms have a: "chars_ok a" "pairs_ok a" "solid a" "\<forall>d\<ge>1. inner d a = Some d"
    and b: "chars_ok b" "pairs_ok b" "solid b" "\<forall>d\<ge>1. inner d b = Some d"
    by (simp_all add: wellformed_text_def)
  have "pairs_ok ([COMMA, SPACE] @ b)"
    unfolding pairs_ok_append using b by (simp add: neighbours_def solid_def)
  then have "pairs_ok (a @ [COMMA, SPACE] @ b)"
    using a by (subst pairs_ok_append) (simp add: neighbours_def solid_def)
  moreover have "solid (a @ [COMMA, SPACE] @ b)"
    using a(3) b(3) by (auto simp: solid_def)
  moreover have "inner d (a @ [COMMA, SPACE] @ b) = Some d" if "1 \<le> d" for d
    using that a(4) b(4) by (simp add: inner_append)
  ultimately show ?thesis using a(1) b(1) by (simp add: wellformed_text_def)
qed

lemma wellformed_member:
  assumes "plain_str k" "wellformed_text v"
  shows "wellformed_text (QUOTE # k @ [QUOTE] @ [COLON, SPACE] @ v)"
proof -
  from wellformed_string [OF assms(1)] have
    a: "chars_ok (QUOTE # k @ [QUOTE])" "pairs_ok (QUOTE # k @ [QUOTE])"
       "\<forall>d\<ge>1. inner d (QUOTE # k @ [QUOTE]) = Some d"
    by (simp_all add: wellformed_text_def)
  from assms(2) have b: "chars_ok v" "pairs_ok v" "solid v" "\<forall>d\<ge>1. inner d v = Some d"
    by (simp_all add: wellformed_text_def)
  have "pairs_ok ([COLON, SPACE] @ v)"
    unfolding pairs_ok_append using b by (simp add: neighbours_def solid_def)
  then have "pairs_ok ((QUOTE # k @ [QUOTE]) @ [COLON, SPACE] @ v)"
    using a(2) by (subst pairs_ok_append) (simp add: neighbours_def)
  moreover have "solid ((QUOTE # k @ [QUOTE]) @ [COLON, SPACE] @ v)"
    using b(3) by (auto simp: solid_def)
  moreover have "inner d ((QUOTE # k @ [QUOTE]) @ [COLON, SPACE] @ v) = Some d" if "1 \<le> d" for d
  proof -
    have "inner d (QUOTE # k @ [QUOTE, COLON, SPACE]) = Some d"
      by (rule inner_no_brace) (use plain_str_no_brace [OF assms(1)] in auto)
    moreover have "(QUOTE # k @ [QUOTE]) @ [COLON, SPACE] @ v
                   = (QUOTE # k @ [QUOTE, COLON, SPACE]) @ v" by simp
    ultimately show ?thesis using that b(4) by (simp only: inner_append) simp
  qed
  ultimately show ?thesis using a(1) b(1) by (simp add: wellformed_text_def)
qed

lemma wellformed_enclosed:
  assumes "wellformed_text x" "(l, r) = (LBRACE, RBRACE) \<or> (l, r) = (LBRACK, RBRACK)"
  shows "wellformed_text (l # x @ [r])"
proof -
  from assms(1) have x: "chars_ok x" "pairs_ok x" "solid x" "\<forall>d\<ge>1. inner d x = Some d"
    by (simp_all add: wellformed_text_def)
  have "pairs_ok (x @ [r])"
    unfolding pairs_ok_append using x assms(2) by (auto simp: neighbours_def solid_def)
  then have "pairs_ok ([l] @ x @ [r])"
    using assms(2) by (subst pairs_ok_append) (auto simp: neighbours_def)
  moreover have "solid (l # x @ [r])" using assms(2) by (auto simp: solid_def)
  moreover have "inner d (l # x @ [r]) = Some d" if "1 \<le> d" for d
    using that x(4) assms(2) by (auto simp: inner_append)
  ultimately show ?thesis using x(1) assms(2) by (auto simp: wellformed_text_def)
qed

lemma wellformed_empty:
  "wellformed_text (py ''[]'')" "wellformed_text (py ''{}'')"
  by (simp_all add: wellformed_text_def py_def solid_def neighbours_def)

lemma encode_plain:
  assumes "plain_str s"
  shows "encode_string True s = QUOTE # s @ [QUOTE]"
proof -
  have "encode_char True c = [c]" if "plain_char c" for c
    using that by (simp add: encode_char_def short_escape_def plain_char_def)
  then have "concat (map (encode_char True) s) = s" if "list_all plain_char s"
    using that by (induction s) simp_all
  with assms show ?thesis by (simp add: encode_string_def plain_str_def)
qed

lemma join_Cons: "join sep (x # xs) = (if xs = [] then x else x @ sep @ join sep xs)"
  by (cases xs) simp_all

lemma dumps_elements_empty [simp]: "dumps_elements repr ea ind l xs = [] \<longleftrightarrow> xs = []"
  by (cases xs) simp_all

lemma dumps_members_empty [simp]: "dumps_members repr ea ind l kvs = [] \<longleftrightarrow> kvs = []"
  by (cases kvs) auto

lemma dumps_wellformed:
  "plain v \<Longrightarrow> wellformed_text (dumps_at repr True None l v)"
  "plains xs \<Longrightarrow> xs \<noteq> [] \<Longrightarrow>
     wellformed_text (join [COMMA, SPACE] (dumps_elements repr True None l xs))"
  "plain_members kvs \<Longrightarrow> kvs \<noteq> [] \<Longrightarrow>
     wellformed_text (join [COMMA, SPACE] (dumps_members repr True None l kvs))"
proof (induction v and xs and kvs arbitrary: l and l and l
       rule: plain_plains_plain_members.induct)
  case 1
  then show ?case by (simp add: wellformed_literals)
next
  case (2 b)
  then show ?case by (simp add: wellformed_literals)
next
  case (3 i)
  then show ?case by (simp add: wellformed_int)
next
  case (4 f)
  then show ?case by simp
next
  case (5 s)
  then show ?case by (simp add: encode_plain wellformed_string)
next
  case (6 xs)
  show ?case
  proof (cases "xs = []")
    case True
    then show ?thesis by (simp add: wellformed_empty)
  next
    case False
    with 6 have "wellformed_text (join [COMMA, SPACE] (dumps_elements repr True None (l + 1) xs))"
      by simp
    from wellformed_enclosed [OF this, of LBRACK RBRACK] False show ?thesis
      by (simp add: newline_indent_def item_separator_def)
  qed
next
  case (7 kvs)
  show ?case
  proof (cases "kvs = []")
    case True
    then show ?thesis by (simp add: wellformed_empty)
  next
    case False
    with 7 have "wellformed_text (join [COMMA, SPACE] (dumps_members repr True None (l + 1) kvs))"
      by simp
    from wellformed_enclosed [OF this, of LBRACE RBRACE] False show ?thesis
      by (simp add: newline_indent_def item_separator_def)
  qed
next
  case 8
  then show ?case by simp
next
  case (9 x xs)
  then have x: "wellformed_text (dumps_at repr True None l x)" by simp
  show ?case
  proof (cases "xs = []")
    case True
    with x show ?thesis by simp
  next
    case False
    with 9 have "wellformed_text (join [COMMA, SPACE] (dumps_elements repr True None l xs))"
      by simp
    from wellformed_separated [OF x this] False show ?thesis
      by (simp add: join_Cons)
  qed
next
  case 10
  then show ?case by simp
next
  case (11 k v kvs)
  then have "plain_str k" "wellformed_text (dumps_at repr True None l v)" by simp_all
  from wellformed_member [OF this] 11 have
    m: "wellformed_text (encode_string True k @ [COLON, SPACE] @ dumps_at repr True None l v)"
    by (simp add: encode_plain)
  show ?case
  proof (cases "kvs = []")
    case True
    with m show ?thesis by simp
  next
    case False
    with 11 have "wellformed_text (join [COMMA, SPACE] (dumps_members repr True None l kvs))"
      by simp
    from wellformed_separated [OF m this] False show ?thesis
      by (simp add: join_Cons)
  qed
qed

text \<open>The repair steps and the scan on such texts.\<close>

lemma sub_runs_none: "\<forall>c \<in> set s. \<not> P c \<Longrightarrow> sub_runs P b s = s"
  by (induction s arbitrary: b) simp_all

lemma chars_ok_space: "chars_ok s \<Longrightarrow> c \<in> set s \<Longrightarrow> isspace c \<Longrightarrow> c = SPACE"
  by (auto simp: chars_ok_def list_all_iff isspace_def)

lemma sub_runs_spaces:
  assumes "chars_ok s" "pairs_ok s" "b \<longrightarrow> s = [] \<or> hd s \<noteq> SPACE"
  shows "sub_runs isspace b s = s"
  using assms
proof (induction s arbitrary: b)
  case Nil
  then show ?case by simp
next
  case (Cons c cs)
  from Cons.prems(1) have ck: "chars_ok cs" by simp
  from Cons.prems(2) have pk: "pairs_ok cs" by (cases cs) simp_all
  show ?case
  proof (cases "isspace c")
    case True
    with chars_ok_space [OF Cons.prems(1), of c] have c: "c = SPACE" by simp
    with Cons.prems(3) have b: "\<not> b" by simp
    from Cons.prems(2) c have "cs = [] \<or> hd cs \<noteq> SPACE"
      by (cases cs) (simp_all add: neighbours_def)
    with Cons.IH [OF ck pk, of True] True b c show ?thesis by simp
  next
    case False
    with Cons.IH [OF ck pk, of False] show ?thesis by simp
  qed
qed

lemma replace_char_absent: "a \<notin> set s \<Longrightarrow> replace_char a b s = s"
  by (induction s) (simp_all add: replace_char_def)

lemma chars_ok_range: "chars_ok s \<Longrightarrow> c \<in> set s \<Longrightarrow> 32 \<le> c \<and> c \<le> 126 \<and> c \<noteq> BACKTICK"
  by (simp add: chars_ok_def list_all_iff)

lemma clean_trailing_commas_id:
  assumes "chars_ok s" "pairs_ok s"
  shows "clean_trailing_commas s = s"
  using assms
proof (induction s)
  case Nil
  then show ?case by simp
next
  case (Cons c cs)
  from Cons.prems(1) have ck: "chars_ok cs" by simp
  from Cons.prems(2) have pk: "pairs_ok cs" by (cases cs) simp_all
  note IH = Cons.IH [OF ck pk]
  show ?case
  proof (cases "c = COMMA")
    case False
    with IH show ?thesis by simp
  next
    case True
    show ?thesis
    proof (cases "dropWhile isspace cs")
      case Nil
      note dw = Nil
      from True IH show ?thesis by (simp add: dw)
    next
      case (Cons d ds)
      note dw = Cons
      have "d \<noteq> RBRACE \<and> d \<noteq> RBRACK"
      proof (cases "takeWhile isspace cs = []")
        case True
        then have "cs = d # ds"
          using dw takeWhile_dropWhile_id [of isspace cs] by simp
        with \<open>pairs_ok (c # cs)\<close> \<open>c = COMMA\<close> show ?thesis
          by (auto simp: neighbours_def)
      next
        case False
        let ?pre = "takeWhile isspace cs"
        have cs: "cs = ?pre @ d # ds"
          using dw takeWhile_dropWhile_id [of isspace cs] by simp
        from False have "last ?pre \<in> set ?pre" by simp
        then have "isspace (last ?pre)" "last ?pre \<in> set cs"
          by (auto dest: set_takeWhileD)
        with chars_ok_space [OF ck] have l: "last ?pre = SPACE" by blast
        from pk cs have "pairs_ok (?pre @ d # ds)" by simp
        with False have "neighbours (last ?pre) d"
          by (simp add: pairs_ok_append)
        with l show ?thesis by (auto simp: neighbours_def)
      qed
      with True IH show ?thesis by (simp add: dw)
    qed
  qed
qed

lemma inner_counts:
  "inner d s = Some e \<Longrightarrow> e - d = int (count_char s LBRACE) - int (count_char s RBRACE)"
proof (induction s arbitrary: d)
  case Nil
  then show ?case by (simp add: count_char_def)
next
  case (Cons c cs)
  show ?case
  proof (cases "c = LBRACE")
    case True
    with Cons.prems have "inner (d + 1) cs = Some e" by simp
    from Cons.IH [OF this] True show ?thesis by (simp add: count_char_def)
  next
    case False
    show ?thesis
    proof (cases "c = RBRACE")
      case True
      with Cons.prems have "inner (d - 1) cs = Some e" by (simp split: if_splits)
      from Cons.IH [OF this] True show ?thesis by (simp add: count_char_def)
    next
      case nb: False
      with False Cons.prems have "inner d cs = Some e" by simp
      from Cons.IH [OF this] False nb show ?thesis by (simp add: count_char_def)
    qed
  qed
qed

lemma repair_wellformed:
  assumes "wellformed_text t"
  shows "repair t = t"
proof -
  from assms have c: "chars_ok t" and p: "pairs_ok t" and s: "solid t"
    and i: "inner 1 t = Some 1"
    by (simp_all add: wellformed_text_def)
  have r: "32 \<le> x \<and> x \<le> 126" if "x \<in> set t" for x
    using chars_ok_range [OF c that] by simp
  have "\<forall>x \<in> set t. \<not> is_nrt x" using r by (fastforce simp: is_nrt_def)
  then have c1: "sub_runs is_nrt False t = t" by (rule sub_runs_none)
  have c2: "sub_runs isspace False t = t" by (rule sub_runs_spaces [OF c p]) simp
  have "8220 \<notin> set t" "8221 \<notin> set t" using r by fastforce+
  then have c3: "replace_char 8221 QUOTE (replace_char 8220 QUOTE t) = t"
    by (simp add: replace_char_absent)
  have "\<forall>x \<in> set t. \<not> is_linebreak x" using r by (fastforce simp: is_linebreak_def)
  then have c4: "fix_missing_commas_between_keys t = t" by (rule fix_missing_commas_no_break)
  have c5: "clean_trailing_commas t = t" by (rule clean_trailing_commas_id [OF c p])
  from inner_counts [OF i] have "count_char t LBRACE = count_char t RBRACE" by simp
  then have c6: "fix_missing_braces t = t" by (simp add: fix_missing_braces_def)
  show ?thesis by (simp add: repair_def c1 c2 c3 c4 c5 c6)
qed

lemma findall_markdown_no_backtick: "BACKTICK \<notin> set s \<Longrightarrow> findall_markdown s = []"
proof (induction s)
  case Nil
  then show ?case by simp
next
  case (Cons c cs)
  then have "c \<noteq> BACKTICK" by simp
  then have "match_markdown (c # cs) = None"
    by (simp add: match_markdown_def startswith_def fence_def)
  with Cons show ?case by simp
qed

lemma brace_scan_inner:
  assumes "inner bc m = Some bc'" "1 \<le> bc"
  shows "brace_scan text i (m @ rest) bc js blocks
         = brace_scan text (i + length m) rest bc' js blocks"
  using assms
proof (induction m arbitrary: i bc)
  case Nil
  then show ?case by simp
next
  case (Cons c cs)
  show ?case
  proof (cases "c = LBRACE")
    case True
    with Cons.prems have "inner (bc + 1) cs = Some bc'" "1 \<le> bc + 1" by simp_all
    from Cons.IH [OF this, of "i + 1"] True Cons.prems(2) show ?thesis by simp
  next
    case False
    show ?thesis
    proof (cases "c = RBRACE")
      case True
      with Cons.prems have "inner (bc - 1) cs = Some bc'" "1 \<le> bc - 1"
        by (simp_all split: if_splits)
      from Cons.IH [OF this, of "i + 1"] True this(2) show ?thesis
        by (cases js) simp_all
    next
      case nb: False
      with False Cons.prems have "inner bc cs = Some bc'" by simp
      from Cons.IH [OF this Cons.prems(2), of "i + 1"] False nb show ?thesis by simp
    qed
  qed
qed

lemma brace_scan_whole_object:
  assumes "inner 1 x = Some 1"
  shows "brace_scan (LBRACE # x @ [RBRACE]) 0 (LBRACE # x @ [RBRACE]) 0 None []
         = (case json_loads (repair (LBRACE # x @ [RBRACE])) of None \<Rightarrow> [] | Some v \<Rightarrow> [v])"
proof -
  let ?t = "LBRACE # x @ [RBRACE]"
  have "brace_scan ?t 0 ?t 0 None [] = brace_scan ?t 1 (x @ [RBRACE]) 1 (Some 0) []"
    by simp
  also have "\<dots> = brace_scan ?t (1 + length x) [RBRACE] 1 (Some 0) []"
    by (rule brace_scan_inner [OF assms]) simp
  also have "\<dots> = (case json_loads (repair ?t) of None \<Rightarrow> [] | Some v \<Rightarrow> [v])"
    by (simp split: option.splits)
  finally show ?thesis .
qed

text \<open>\<^verbatim>\<open>json.loads\<close> reads back what \<^verbatim>\<open>json.dumps\<close> wrote for a plain value.\<close>

lemma scanstring_plain:
  "list_all plain_char s \<Longrightarrow> scanstring acc (s @ QUOTE # rest) = Some (acc @ s, rest)"
proof (induction s arbitrary: acc)
  case Nil
  then show ?case by simp
next
  case (Cons c cs)
  then have "c \<noteq> QUOTE" "c \<noteq> BACKSLASH" "\<not> c < 32" by (simp_all add: plain_char_def)
  with Cons show ?case by simp
qed

lemma digits_value_snoc: "digits_value (ds @ [d]) = digits_value ds * 10 + (d - 48)"
  by (simp add: digits_value_def)

lemma digits_value_dec_nat: "digits_value (dec_nat n) = n"
proof (induction n rule: dec_nat.induct)
  case (1 n)
  show ?case
  proof (cases "n < 10")
    case True
    then show ?thesis by (subst dec_nat.simps) (simp add: digits_value_def)
  next
    case False
    with 1 have "digits_value (dec_nat (n div 10)) = n div 10" by simp
    with False show ?thesis
      by (subst dec_nat.simps) (simp add: digits_value_snoc)
  qed
qed

lemma dec_nat_head: "hd (dec_nat n) = 48 \<longleftrightarrow> n = 0"
proof (induction n rule: dec_nat.induct)
  case (1 n)
  show ?case
  proof (cases "n < 10")
    case True
    then show ?thesis by (subst dec_nat.simps) simp
  next
    case False
    with 1 have "hd (dec_nat (n div 10)) = 48 \<longleftrightarrow> n div 10 = 0" by simp
    moreover from False have "n div 10 \<noteq> 0" by simp
    moreover have "dec_nat (n div 10) \<noteq> []" using dec_nat_digits by blast
    ultimately show ?thesis using False
      by (subst dec_nat.simps) simp
  qed
qed

lemma dec_nat_zero: "dec_nat 0 = [48]"
  by (subst dec_nat.simps) simp

lemma stops_not_digit: "stops rest \<Longrightarrow> rest = [] \<or> \<not> is_digit (hd rest)"
  by (auto simp: stops_def is_digit_def)

lemma digits_then_rest:
  assumes "list_all is_digit ds" "stops rest"
  shows "takeWhile is_digit (ds @ rest) = ds" "dropWhile is_digit (ds @ rest) = rest"
proof -
  from stops_not_digit [OF assms(2)] have
    "takeWhile is_digit rest = []" "dropWhile is_digit rest = rest"
    by (cases rest; simp)+
  with assms(1) show "takeWhile is_digit (ds @ rest) = ds" "dropWhile is_digit (ds @ rest) = rest"
    by (simp_all add: list_all_iff takeWhile_append2 dropWhile_append2)
qed

lemma int_part_dec_nat:
  assumes "stops rest"
  shows "int_part (dec_nat n @ rest) = Some (dec_nat n, rest)"
proof -
  from dec_nat_digits [of n] obtain c cs where d: "dec_nat n = c # cs" "list_all is_digit (c # cs)"
    by (cases "dec_nat n") auto
  show ?thesis
  proof (cases "n = 0")
    case True
    then show ?thesis by (simp add: dec_nat_zero int_part_def)
  next
    case False
    with dec_nat_head [of n] d have "c \<noteq> 48" by simp
    moreover from d have "is_digit c" by simp
    ultimately show ?thesis
      using digits_then_rest [OF d(2) assms] d(1)
      by (simp add: int_part_def)
  qed
qed

lemma no_frac_no_exp: "stops rest \<Longrightarrow> frac_part rest = None \<and> exp_part rest = None"
  by (cases rest rule: sparse.cases)
     (auto simp: stops_def frac_part_def exp_part_def split: list.splits)

lemma match_number_str_int:
  assumes "stops rest"
  shows "match_number (str_int i @ rest) = Some (PInt i, rest)"
proof -
  let ?ds = "dec_nat (nat \<bar>i\<bar>)"
  note ip = int_part_dec_nat [OF assms, of "nat \<bar>i\<bar>"]
  note fe = no_frac_no_exp [OF assms]
  from dec_nat_digits [of "nat \<bar>i\<bar>"] obtain c cs where
    d: "?ds = c # cs" "is_digit c" by (cases ?ds) auto
  show ?thesis
  proof (cases "i < 0")
    case True
    then have "str_int i @ rest = 45 # ?ds @ rest" by (simp add: str_int_def)
    with ip fe True show ?thesis
      by (simp add: match_number_def digits_value_dec_nat)
  next
    case False
    then have s: "str_int i @ rest = ?ds @ rest" by (simp add: str_int_def)
    from d have "hd (?ds @ rest) \<noteq> 45" by (simp add: is_digit_def)
    with ip fe False show ?thesis
      by (simp add: match_number_def s digits_value_dec_nat)
  qed
qed

lemma parse_value_int:
  assumes "stops rest"
  shows "parse_value (Suc n) (str_int i @ rest) = Some (PInt i, rest)"
proof -
  let ?ds = "dec_nat (nat \<bar>i\<bar>)"
  from dec_nat_digits [of "nat \<bar>i\<bar>"] obtain c cs where
    d: "?ds = c # cs" "is_digit c" by (cases ?ds) auto
  have "\<exists>a b r. str_int i @ rest = a # r \<and> (is_digit a \<or> (a = 45 \<and> r = b # cs @ rest \<and> is_digit b))"
    using d by (auto simp: str_int_def)
  then obtain a r where s: "str_int i @ rest = a # r"
    and h: "is_digit a \<or> (a = 45 \<and> (\<exists>b. r = b # cs @ rest \<and> is_digit b))" by blast
  from h have lit:
    "a \<noteq> QUOTE" "a \<noteq> LBRACE" "a \<noteq> LBRACK"
    "\<not> startswith (a # r) (py ''null'')" "\<not> startswith (a # r) (py ''true'')"
    "\<not> startswith (a # r) (py ''false'')" "\<not> startswith (a # r) (py ''NaN'')"
    "\<not> startswith (a # r) (py ''Infinity'')" "\<not> startswith (a # r) (py ''-Infinity'')"
    by (auto simp: is_digit_def startswith_def py_def)
  have "parse_value (Suc n) (a # r) = match_number (a # r)"
    using lit by simp
  with s match_number_str_int [OF assms, of i] show ?thesis by simp
qed

lemma startswith_single [simp]: "startswith (c # s) [d] \<longleftrightarrow> c = d"
  by (simp add: startswith_def)

lemma skip_ws_space [simp]: "skip_ws (SPACE # s) = skip_ws s"
  by (simp add: skip_ws_def json_ws_def)

lemma skip_ws_solid:
  assumes "wellformed_text s"
  shows "skip_ws (s @ r) = s @ r"
proof -
  from assms obtain c cs where s: "s = c # cs" and "c \<noteq> SPACE" and "32 \<le> c"
    by (cases s) (auto simp: wellformed_text_def solid_def)
  then have "\<not> json_ws c" by (simp add: json_ws_def)
  then show ?thesis by (simp add: s skip_ws_def)
qed

lemma solid_not_closing:
  assumes "wellformed_text s"
  shows "\<not> startswith (s @ r) [RBRACE]" "\<not> startswith (s @ r) [RBRACK]"
proof -
  from assms obtain c cs where "s = c # cs" and "c \<noteq> RBRACE" and "c \<noteq> RBRACK"
    by (cases s) (auto simp: wellformed_text_def solid_def)
  then show "\<not> startswith (s @ r) [RBRACE]" "\<not> startswith (s @ r) [RBRACK]" by simp_all
qed

lemma wellformed_length: "wellformed_text s \<Longrightarrow> 0 < length s"
  by (simp add: wellformed_text_def solid_def)

lemma dict_set_new: "k \<notin> fst ` set acc \<Longrightarrow> dict_set acc k v = acc @ [(k, v)]"
  by (induction acc) auto

lemma stops_simps [simp]:
  "stops (COMMA # r)" "stops (RBRACE # r)" "stops (RBRACK # r)" "stops []"
  by (simp_all add: stops_def)

lemma parse_value_literals:
  "stops rest \<Longrightarrow> parse_value (Suc n) (py ''null'' @ rest) = Some (PNone, rest)"
  "stops rest \<Longrightarrow> parse_value (Suc n) (py ''true'' @ rest) = Some (PBool True, rest)"
  "stops rest \<Longrightarrow> parse_value (Suc n) (py ''false'' @ rest) = Some (PBool False, rest)"
  "parse_value (Suc n) (py ''[]'' @ rest) = Some (PList [], rest)"
  "parse_value (Suc n) (py ''{}'' @ rest) = Some (PDict [], rest)"
  by (simp_all add: py_def startswith_def skip_ws_def json_ws_def)

lemma parse_value_string:
  assumes "plain_str s"
  shows "parse_value (Suc n) (QUOTE # s @ [QUOTE] @ rest) = Some (PStr s, rest)"
  using assms scanstring_plain [of s "[]" rest] by (simp add: plain_str_def)

lemma parse_value_list:
  assumes "wellformed_text e"
  shows "parse_value (Suc n) (LBRACK # e @ RBRACK # rest) = parse_elements n [] (e @ RBRACK # rest)"
  using skip_ws_solid [OF assms, of "RBRACK # rest"] solid_not_closing [OF assms, of "RBRACK # rest"]
  by simp

lemma parse_value_dict:
  assumes "wellformed_text m"
  shows "parse_value (Suc n) (LBRACE # m @ RBRACE # rest) = parse_members n [] (m @ RBRACE # rest)"
  using skip_ws_solid [OF assms, of "RBRACE # rest"] solid_not_closing [OF assms, of "RBRACE # rest"]
  by simp

lemma parse_elements_last:
  assumes "parse_value n (x @ RBRACK # rest) = Some (v, RBRACK # rest)"
  shows "parse_elements (Suc n) acc (x @ RBRACK # rest) = Some (PList (acc @ [v]), rest)"
  using assms by (simp add: skip_ws_def json_ws_def)

lemma parse_elements_more:
  assumes "parse_value n (x @ COMMA # SPACE # e @ RBRACK # rest)
           = Some (v, COMMA # SPACE # e @ RBRACK # rest)"
    and "wellformed_text e"
  shows "parse_elements (Suc n) acc (x @ COMMA # SPACE # e @ RBRACK # rest)
         = parse_elements n (acc @ [v]) (e @ RBRACK # rest)"
proof -
  have a: "skip_ws (COMMA # SPACE # e @ RBRACK # rest) = COMMA # SPACE # e @ RBRACK # rest"
    by (simp add: skip_ws_def json_ws_def)
  show ?thesis
    using assms(1) skip_ws_solid [OF assms(2), of "RBRACK # rest"]
    by (simp add: a)
qed

lemma parse_members_step:
  assumes "plain_str k"
    and "wellformed_text x"
    and "parse_value n (x @ tail) = Some (v, tail)"
  shows "parse_members (Suc n) acc (QUOTE # k @ [QUOTE] @ [COLON, SPACE] @ x @ tail)
         = (if startswith (skip_ws tail) [RBRACE]
            then Some (PDict (dict_set acc k v), tl (skip_ws tail))
            else if startswith (skip_ws tail) [COMMA]
            then parse_members n (dict_set acc k v) (skip_ws (tl (skip_ws tail)))
            else None)"
proof -
  have s: "scanstring [] (k @ QUOTE # COLON # SPACE # x @ tail)
           = Some (k, COLON # SPACE # x @ tail)"
    using assms(1) scanstring_plain [of k "[]"] by (simp add: plain_str_def)
  have a: "skip_ws (COLON # SPACE # x @ tail) = COLON # SPACE # x @ tail"
    by (simp add: skip_ws_def json_ws_def)
  show ?thesis
    using assms(3) skip_ws_solid [OF assms(2), of tail]
    by (simp add: s a)
qed

lemma parse_plain:
  "plain v \<Longrightarrow> stops rest \<Longrightarrow> length (dumps_at repr True None l v) < n \<Longrightarrow>
     parse_value n (dumps_at repr True None l v @ rest) = Some (v, rest)"
  "plains xs \<Longrightarrow> xs \<noteq> [] \<Longrightarrow>
     length (join [COMMA, SPACE] (dumps_elements repr True None l xs)) + 1 < n \<Longrightarrow>
     parse_elements n acc (join [COMMA, SPACE] (dumps_elements repr True None l xs) @ RBRACK # rest)
       = Some (PList (acc @ xs), rest)"
  "plain_members kvs \<Longrightarrow> kvs \<noteq> [] \<Longrightarrow> fst ` set acc' \<inter> fst ` set kvs = {} \<Longrightarrow>
     length (join [COMMA, SPACE] (dumps_members repr True None l kvs)) + 1 < n \<Longrightarrow>
     parse_members n acc' (join [COMMA, SPACE] (dumps_members repr True None l kvs) @ RBRACE # rest)
       = Some (PDict (acc' @ kvs), rest)"
  supply parse_value.simps [simp del] parse_members.simps [simp del]
    parse_elements.simps [simp del]
proof (induction v and xs and kvs arbitrary: l rest n and l rest n acc and l rest n acc'
       rule: plain_plains_plain_members.induct)
  case 1
  then obtain m where "n = Suc m" by (cases n) auto
  with 1 show ?case by (simp add: parse_value_literals)
next
  case (2 b)
  then obtain m where "n = Suc m" by (cases n) auto
  with 2 show ?case by (simp add: parse_value_literals)
next
  case (3 i)
  then obtain m where "n = Suc m" by (cases n) auto
  with 3 show ?case by (simp add: parse_value_int)
next
  case (4 f)
  then show ?case by simp
next
  case (5 s)
  then obtain m where "n = Suc m" by (cases n) auto
  with 5 parse_value_string [of s m rest] show ?case by (simp add: encode_plain)
next
  case (6 xs)
  from 6 obtain m where n: "n = Suc m" by (cases n) auto
  show ?case
  proof (cases "xs = []")
    case True
    with n parse_value_literals(4) [of m rest] show ?thesis by simp
  next
    case False
    let ?e = "join [COMMA, SPACE] (dumps_elements repr True None (l + 1) xs)"
    from 6 False have wf: "wellformed_text ?e" by (simp add: dumps_wellformed)
    have d: "dumps_at repr True None l (PList xs) = LBRACK # ?e @ [RBRACK]"
      using False by (simp add: newline_indent_def item_separator_def)
    with 6 n have len: "length ?e + 1 < m" by simp
    from 6 False have "plains xs" by simp
    from "6.IH" [OF this False len, of "[]" rest] parse_value_list [OF wf, of m rest] d n
    show ?thesis by simp
  qed
next
  case (7 kvs)
  from 7 obtain m where n: "n = Suc m" by (cases n) auto
  show ?case
  proof (cases "kvs = []")
    case True
    with n parse_value_literals(5) [of m rest] show ?thesis by simp
  next
    case False
    let ?m = "join [COMMA, SPACE] (dumps_members repr True None (l + 1) kvs)"
    from 7 False have wf: "wellformed_text ?m" by (simp add: dumps_wellformed)
    have d: "dumps_at repr True None l (PDict kvs) = LBRACE # ?m @ [RBRACE]"
      using False by (simp add: newline_indent_def item_separator_def)
    with 7 n have len: "length ?m + 1 < m" by simp
    from 7 False have "plain_members kvs" by simp
    from "7.IH" [OF this False _ len, of "[]" rest] parse_value_dict [OF wf, of m rest] d n
    show ?thesis by simp
  qed
next
  case 8
  then show ?case by simp
next
  case (9 x xs)
  from 9 obtain m where n: "n = Suc m" by (cases n) auto
  let ?x = "dumps_at repr True None l x"
  let ?e = "join [COMMA, SPACE] (dumps_elements repr True None l xs)"
  from 9 have px: "plain x" and pxs: "plains xs" by simp_all
  show ?case
  proof (cases "xs = []")
    case True
    with 9 n have len: "length ?x < m" by simp
    from "9.IH"(1) [OF px _ len, of "RBRACK # rest"] have
      "parse_value m (?x @ RBRACK # rest) = Some (x, RBRACK # rest)" by simp
    from parse_elements_last [OF this, of acc] True n show ?thesis by simp
  next
    case False
    from pxs False have wf: "wellformed_text ?e" by (simp add: dumps_wellformed)
    have j: "join [COMMA, SPACE] (dumps_elements repr True None l (x # xs))
             = ?x @ COMMA # SPACE # ?e"
      using False by (simp add: join_Cons)
    with 9 n have len: "length ?x < m" "length ?e + 1 < m"
      using wellformed_length [OF dumps_wellformed(1) [OF px, of repr l]] by simp_all
    from "9.IH"(1) [OF px _ len(1), of "COMMA # SPACE # ?e @ RBRACK # rest"] have
      "parse_value m (?x @ COMMA # SPACE # ?e @ RBRACK # rest)
       = Some (x, COMMA # SPACE # ?e @ RBRACK # rest)" by simp
    from parse_elements_more [OF this wf, of acc]
      "9.IH"(2) [OF pxs False len(2), of "acc @ [x]" rest] j n
    show ?thesis by simp
  qed
next
  case 10
  then show ?case by simp
next
  case (11 k v kvs)
  from 11 obtain m where n: "n = Suc m" by (cases n) auto
  let ?v = "dumps_at repr True None l v"
  let ?m = "join [COMMA, SPACE] (dumps_members repr True None l kvs)"
  from 11 have pk: "plain_str k" and pv: "plain v" and pkvs: "plain_members kvs"
    and fresh: "k \<notin> fst ` set kvs" by simp_all
  from "11.prems"(3) have new: "k \<notin> fst ` set acc'" by auto
  have wv: "wellformed_text ?v" using pv by (simp add: dumps_wellformed)
  have member: "encode_string True k @ [COLON, SPACE] @ ?v
                = QUOTE # k @ [QUOTE] @ [COLON, SPACE] @ ?v"
    using pk by (simp add: encode_plain)
  show ?case
  proof (cases "kvs = []")
    case True
    with 11 n member have len: "length ?v < m" by simp
    from "11.IH"(1) [OF pv _ len, of "RBRACE # rest"] have
      "parse_value m (?v @ RBRACE # rest) = Some (v, RBRACE # rest)" by simp
    from parse_members_step [OF pk wv this, of acc'] True n member new
    show ?thesis by (simp add: dict_set_new skip_ws_def json_ws_def)
  next
    case False
    from pkvs False have wf: "wellformed_text ?m" by (simp add: dumps_wellformed)
    have j: "join [COMMA, SPACE] (dumps_members repr True None l ((k, v) # kvs))
             = QUOTE # k @ [QUOTE] @ [COLON, SPACE] @ ?v @ COMMA # SPACE # ?m"
      using False member by (simp add: join_Cons)
    with "11.prems"(4) n have len: "length ?v < m" "length ?m + 1 < m" by simp_all
    from "11.IH"(1) [OF pv _ len(1), of "COMMA # SPACE # ?m @ RBRACE # rest"] have
      "parse_value m (?v @ COMMA # SPACE # ?m @ RBRACE # rest)
       = Some (v, COMMA # SPACE # ?m @ RBRACE # rest)" by simp
    note step = parse_members_step [OF pk wv this, of acc']
    have sk: "skip_ws (COMMA # SPACE # ?m @ RBRACE # rest) = COMMA # SPACE # ?m @ RBRACE # rest"
      by (simp add: skip_ws_def json_ws_def)
    have disj: "fst ` set (acc' @ [(k, v)]) \<inter> fst ` set kvs = {}"
      using "11.prems"(3) fresh by auto
    from "11.IH"(2) [OF pkvs False disj len(2), of rest] step j n new
      skip_ws_solid [OF wf, of "RBRACE # rest"]
    show ?thesis by (simp add: dict_set_new sk)
  qed
qed

lemma json_loads_dumps_plain:
  assumes "plain v"
  shows "json_loads (json_dumps repr v) = Some v"
proof -
  let ?t = "dumps_at repr True None 0 v"
  have wf: "wellformed_text ?t" using assms by (rule dumps_wellformed)
  then obtain c cs where t: "?t = c # cs" and "c \<le> 126"
    by (cases ?t) (auto simp: wellformed_text_def solid_def)
  then have nobom: "\<not> startswith ?t [65279]" by simp
  have sk: "skip_ws ?t = ?t" using skip_ws_solid [OF wf, of "[]"] by simp
  have "parse_value (length ?t + 1) (?t @ []) = Some (v, [])"
    by (rule parse_plain(1) [OF assms]) simp_all
  then show ?thesis
    using nobom sk by (simp add: json_loads_def json_dumps_def skip_ws_def)
qed

lemma extract_dumps_plain:
  assumes "plain (PDict kvs)"
  shows "extract_json_from_response (json_dumps repr (PDict kvs)) = PDict kvs"
proof -
  let ?t = "json_dumps repr (PDict kvs)"
  have wf: "wellformed_text ?t"
    unfolding json_dumps_def using assms by (rule dumps_wellformed)
  then have "BACKTICK \<notin> set ?t"
    using chars_ok_range [of ?t BACKTICK] by (auto simp: wellformed_text_def)
  then have f: "findall_markdown ?t = []" by (rule findall_markdown_no_backtick)
  have l: "json_loads (repair ?t) = Some (PDict kvs)"
    using repair_wellformed [OF wf] json_loads_dumps_plain [OF assms, of repr] by simp
  have "\<exists>x. ?t = LBRACE # x @ [RBRACE] \<and> inner 1 x = Some 1"
  proof (cases "kvs = []")
    case True
    then have "?t = LBRACE # [] @ [RBRACE]" by (simp add: json_dumps_def py_def)
    then show ?thesis by (intro exI [of _ "[]"]) simp
  next
    case False
    let ?m = "join [COMMA, SPACE] (dumps_members repr True None (0 + 1) kvs)"
    from assms False have "wellformed_text ?m" by (simp add: dumps_wellformed)
    then have "inner 1 ?m = Some 1" by (simp add: wellformed_text_def)
    moreover have "?t = LBRACE # ?m @ [RBRACE]"
      using False by (simp add: json_dumps_def newline_indent_def item_separator_def)
    ultimately show ?thesis by blast
  qed
  then obtain x where x: "?t = LBRACE # x @ [RBRACE]" "inner 1 x = Some 1" by blast
  from brace_scan_whole_object [OF x(2)] x(1) l have
    "brace_scan ?t 0 ?t 0 None [] = [PDict kvs]" by simp
  with f show ?thesis by (simp add: extract_json_from_response_def)
qed

section \<open>Claim about extracting twice\<close>

text \<open>
  Claim C9, as stated, fails.  The text \<^verbatim>\<open>{"a": "x\u0020\u0020y"}\<close> is extracted with success
  to the object whose string holds two spaces; \<^verbatim>\<open>json.dumps\<close> writes the two spaces out, the
  whitespace collapse of the second extraction makes one space of them, and the second result
  differs from the first.
\<close>

theorem reextraction_changes_escaped_spaces:
  "extract_json_from_response escaped_spaces = PDict [(py ''a'', PStr (py ''x  y''))]
   \<and> extract_json_from_response escaped_spaces \<noteq> no_valid_json
   \<and> json_dumps repr_unused (extract_json_from_response escaped_spaces) = py ''{\"a\": \"x  y\"}''
   \<and> extract_json_from_response (json_dumps repr_unused (extract_json_from_response escaped_spaces))
       = PDict [(py ''a'', PStr (py ''x y''))]
   \<and> extract_json_from_response (json_dumps repr_unused (extract_json_from_response escaped_spaces))
       \<noteq> extract_json_from_response escaped_spaces"
proof -
  have e1: "extract_json_from_response escaped_spaces = PDict [(py ''a'', PStr (py ''x  y''))]"
    by (simp add: ev escaped_spaces_def)
  have e2: "json_dumps repr_unused (PDict [(py ''a'', PStr (py ''x  y''))])
              = py ''{\"a\": \"x  y\"}''"
    by (simp add: ev ev_build)
  have e3: "extract_json_from_response (py ''{\"a\": \"x  y\"}'')
                = PDict [(py ''a'', PStr (py ''x y''))]"
    by (simp add: ev)
  show ?thesis
    by (simp add: e1 e2 e3) (simp add: py_def no_valid_json_def)
qed

text \<open>
  Claim C9, amended.  Whenever the first extraction returns a plain object (its strings are
  printable ASCII without double quote, backslash, backtick, braces and closing bracket and
  without two spaces in a row, its numbers are integers, its keys are distinct), re-serialising
  it with \<^verbatim>\<open>json.dumps\<close> and extracting again returns the same object.
\<close>

theorem reextraction_of_plain_result:
  assumes "plain (extract_json_from_response raw)"
  shows "extract_json_from_response (json_dumps repr (extract_json_from_response raw))
         = extract_json_from_response raw"
proof -
  from extract_is_dict [of raw] obtain kvs where r: "extract_json_from_response raw = PDict kvs"
    by (cases "extract_json_from_response raw") auto
  with assms have "plain (PDict kvs)" by simp
  from extract_dumps_plain [OF this] r show ?thesis by simp
qed

theorem reextraction_of_plain_result_witness:
  "plain (extract_json_from_response plain_raw)
   \<and> extract_json_from_response plain_raw
       = PDict [(py ''a'', PStr (py ''x y'')),
                (py ''n'', PList [PInt 1, PDict [(py ''b'', PNone)]])]
   \<and> extract_json_from_response (json_dumps repr_unused (extract_json_from_response plain_raw))
       = extract_json_from_response plain_raw"
proof -
  have v: "extract_json_from_response plain_raw
           = PDict [(py ''a'', PStr (py ''x y'')),
                    (py ''n'', PList [PInt 1, PDict [(py ''b'', PNone)]])]"
    by (simp add: ev plain_raw_def)
  have p: "plain (extract_json_from_response plain_raw)"
    unfolding v by (simp add: plain_str_def plain_char_def py_def)
  from reextraction_of_plain_result [OF p, of repr_unused] p v show ?thesis by simp
qed

end
